theory Spec2Isabelle
  imports Main "HOL-Library.Word" "HOL-Library.FSet" "HOL-Library.AList"
begin

section \<open>Bytes, operations and errors\<close>

text \<open>
  The module under verification is \<^verbatim>\<open>opentimestamps/core/timestamp.py\<close>: the classes
  \<^verbatim>\<open>OpSet\<close> and \<^verbatim>\<open>Timestamp\<close> and the functions \<^verbatim>\<open>cat_then_unary_op\<close>,
  \<^verbatim>\<open>cat_sha256\<close>, \<^verbatim>\<open>cat_sha256d\<close> and \<^verbatim>\<open>make_merkle_tree\<close>.
  A Python \<^verbatim>\<open>bytes\<close> value is a list of 8-bit words.
\<close>

type_synonym byte = "8 word"
type_synonym bytes = "byte list"

text \<open>
  Modelled from the spec: the operation catalogue (module \<^verbatim>\<open>opentimestamps.core.op\<close>) is
  imported by the source file but is not part of it. The spec describes an operation as
  an immutable value naming a pure, total function from bytes to bytes, of two kinds:
  a unary crypto op without parameters (SHA-256) and a prepared op that carries a byte
  payload and concatenates it on one side of its input (append, prepend). The three
  constructors are the three operations the source file names. The hash function itself
  is a parameter \<open>sha256\<close> of everything that applies an operation, so every theorem
  holds for whatever function SHA-256 is.
\<close>

datatype op = OpSHA256 | OpAppend bytes | OpPrepend bytes

text \<open>\<^verbatim>\<open>op(msg)\<close>: applying an operation to a message.\<close>

fun op_call :: "(bytes \<Rightarrow> bytes) \<Rightarrow> op \<Rightarrow> bytes \<Rightarrow> bytes" where
  "op_call sha256 OpSHA256 m = sha256 m"
| "op_call sha256 (OpAppend arg) m = m @ arg"
| "op_call sha256 (OpPrepend arg) m = arg @ m"

text \<open>
  Every \<^verbatim>\<open>raise\<close> of the source file is a constructor; the last three are not raised by
  the file itself: \<open>Truncated\<close> is \<^verbatim>\<open>ctx.read_bytes\<close> reading past the end of the
  input, \<open>CodecError\<close> is whatever the operation and attestation decoders raise, and
  \<open>OutOfFuel\<close> is the recursion bound of the functions below that take fuel.
\<close>

datatype error =
    ExistingResultMismatch  \<comment> \<open>ValueError: Can't change existing result timestamp\<close>
  | MergeTypeError          \<comment> \<open>TypeError: Can only merge Timestamps together\<close>
  | MergeMsgMismatch        \<comment> \<open>ValueError: Can't merge timestamps for different messages together\<close>
  | EmptyTimestamp          \<comment> \<open>ValueError: An empty timestamp can't be serialized\<close>
  | NeedAtLeastOne          \<comment> \<open>ValueError: Need at least one timestamp\<close>
  | DictChangedSize         \<comment> \<open>RuntimeError: dictionary changed size during iteration\<close>
  | Truncated
  | CodecError
  | OutOfFuel

section \<open>The operation map\<close>

text \<open>
  \<^verbatim>\<open>OpSet\<close> is a \<^verbatim>\<open>dict\<close> from operations to child timestamps. A Python dict keeps its
  keys in insertion order and replaces a value in place, which is what an association
  list with \<^const>\<open>AList.update\<close> does. The children are of any type \<open>'c\<close> with a
  message: timestamp values in the value model, references in the store model.

  \<^verbatim>\<open>OpSet.__setitem__\<close>: the result is the map after the assignment and the error
  raised, if any.
\<close>

definition OpSet_setitem ::
  "('c \<Rightarrow> bytes) \<Rightarrow> (op \<times> 'c) list \<Rightarrow> op \<Rightarrow> 'c \<Rightarrow> (op \<times> 'c) list \<times> error option" where
  "OpSet_setitem msg_of self op new_timestamp =
     (case map_of self op of
        None \<Rightarrow> (AList.update op new_timestamp self, None)
      | Some existing_timestamp \<Rightarrow>
          if msg_of existing_timestamp \<noteq> msg_of new_timestamp
          then (self, Some ExistingResultMismatch)
          else (AList.update op new_timestamp self, None))"

text \<open>
  \<^verbatim>\<open>OpSet.add\<close>: the existing child, or a new one made by the factory and stored under
  the key (the key is absent there, so \<^verbatim>\<open>self[key] = value\<close> takes the
  \<^verbatim>\<open>KeyError\<close> branch of \<^verbatim>\<open>__setitem__\<close> and stores without a check).
\<close>

definition OpSet_add :: "(op \<Rightarrow> 'c) \<Rightarrow> (op \<times> 'c) list \<Rightarrow> op \<Rightarrow> (op \<times> 'c) list \<times> 'c" where
  "OpSet_add make_timestamp self key =
     (case map_of self key of
        Some v \<Rightarrow> (self, v)
      | None \<Rightarrow> (let v = make_timestamp key in (AList.update key v self, v)))"

section \<open>Timestamps as values\<close>

text \<open>
  A timestamp is a message, a set of attestations and an operation map whose values
  are timestamps again. Attestations (module \<^verbatim>\<open>opentimestamps.core.notary\<close>) are
  opaque: any type \<open>'a\<close>, linearly ordered where the code sorts them. The value model
  reads a timestamp and everything below it as one tree; it is the model of the methods
  that work on one timestamp or on two that share no node. The store model further down
  is for the functions that make two parents share a child.
\<close>

datatype 'a timestamp =
  Timestamp (msg: bytes) (attestations: "'a fset") (ops: "(op \<times> 'a timestamp) list")

text \<open>A Python value handed to a method that tests \<^verbatim>\<open>isinstance(other, Timestamp)\<close>.\<close>

datatype 'a pyobj = PyTimestamp "'a timestamp" | PyOther

text \<open>\<^verbatim>\<open>Timestamp.__init__\<close>, and the factory it gives its \<^verbatim>\<open>OpSet\<close>.\<close>

definition new_timestamp :: "bytes \<Rightarrow> 'a timestamp" where
  "new_timestamp m = Timestamp m {||} []"

definition make_timestamp :: "(bytes \<Rightarrow> bytes) \<Rightarrow> bytes \<Rightarrow> op \<Rightarrow> 'a timestamp" where
  "make_timestamp sha256 m op = new_timestamp (op_call sha256 op m)"

text \<open>\<^verbatim>\<open>self.ops.add(op)\<close> on a timestamp value: the timestamp afterwards and the child.\<close>

definition ops_add :: "(bytes \<Rightarrow> bytes) \<Rightarrow> 'a timestamp \<Rightarrow> op \<Rightarrow> 'a timestamp \<times> 'a timestamp" where
  "ops_add sha256 self key =
     (let (ops', child) = OpSet_add (make_timestamp sha256 (msg self)) (ops self) key
      in (Timestamp (msg self) (attestations self) ops', child))"

text \<open>
  \<^verbatim>\<open>Timestamp.__eq__\<close>: the messages and the operation maps are compared, the
  attestations are not. Two dicts are equal in Python when they have the same number of
  keys and every key of the first is a key of the second with an equal value.
\<close>

fun timestamp_eq :: "'a timestamp \<Rightarrow> 'a timestamp \<Rightarrow> bool" where
  "timestamp_eq (Timestamp m1 a1 o1) (Timestamp m2 a2 o2) =
     (m1 = m2 \<and> length o1 = length o2 \<and>
      (\<forall>(k, v) \<in> set o1. case map_of o2 k of None \<Rightarrow> False | Some v' \<Rightarrow> timestamp_eq v v'))"

definition Timestamp_eq :: "'a timestamp \<Rightarrow> 'a pyobj \<Rightarrow> bool" where
  "Timestamp_eq self other =
     (case other of PyTimestamp t \<Rightarrow> timestamp_eq self t | PyOther \<Rightarrow> False)"

text \<open>
  \<^verbatim>\<open>Timestamp.merge\<close> mutates \<open>self\<close> in place, so the model returns \<open>self\<close> as it is
  when the call ends together with the error raised, if any: a \<^verbatim>\<open>raise\<close> in a nested
  call leaves behind whatever was written before it. \<open>merge_items\<close> is the loop over
  \<^verbatim>\<open>other.ops.items()\<close>; the child returned by \<^verbatim>\<open>self.ops.add\<close> is merged in place,
  which in the value model is the update of its entry.
\<close>

function merge :: "(bytes \<Rightarrow> bytes) \<Rightarrow> 'a timestamp \<Rightarrow> 'a pyobj \<Rightarrow> 'a timestamp \<times> error option"
  and merge_items :: "(bytes \<Rightarrow> bytes) \<Rightarrow> 'a timestamp \<Rightarrow> (op \<times> 'a timestamp) list \<Rightarrow> 'a timestamp \<times> error option"
where
  "merge sha256 self PyOther = (self, Some MergeTypeError)"
| "merge sha256 self (PyTimestamp other) =
     (if msg self \<noteq> msg other then (self, Some MergeMsgMismatch)
      else merge_items sha256
             (Timestamp (msg self) (attestations self |\<union>| attestations other) (ops self))
             (ops other))"
| "merge_items sha256 self [] = (self, None)"
| "merge_items sha256 self ((other_op, other_op_stamp) # rest) =
     (let (self1, our_op_stamp) = ops_add sha256 self other_op;
          (merged, err) = merge sha256 our_op_stamp (PyTimestamp other_op_stamp);
          self2 = Timestamp (msg self1) (attestations self1) (AList.update other_op merged (ops self1))
      in case err of Some e \<Rightarrow> (self2, Some e) | None \<Rightarrow> merge_items sha256 self2 rest)"
  by pat_completeness auto
termination
  apply (relation "measure (\<lambda>x. case x of
           Inl (h, s, ob) \<Rightarrow> (case ob of PyOther \<Rightarrow> 0 | PyTimestamp t \<Rightarrow> 2 * size t)
         | Inr (h, s, l) \<Rightarrow> 2 * size_list (size_prod (\<lambda>_. 0) size) l + 1)")
  apply simp
  subgoal for sha256 self other by (cases other) simp
  subgoal by simp
  subgoal by simp
  done

text \<open>
  \<^verbatim>\<open>Timestamp.serialize\<close>. The context \<^verbatim>\<open>ctx\<close> is the byte string written so far; the
  model returns the bytes one call appends, or the error (the bytes written before a
  \<^verbatim>\<open>raise\<close> are dropped with it). The encoders of attestations and operations, and
  the order of operations that \<^verbatim>\<open>sorted\<close> uses (a key \<open>op_key\<close> into a linear
  order), belong to the modules that are not part of the file: they are parameters.
  \<open>serialize_items\<close> is the loop over \<^verbatim>\<open>sorted_ops[0:-1]\<close>.
\<close>

lemma size_list_sort_key: "size_list g (sort_key f xs) = size_list g xs"
proof -
  have ins: "size_list g (insort_key f x ys) = Suc (g x + size_list g ys)" for x ys
    by (induction ys) auto
  show ?thesis by (induction xs) (auto simp: ins)
qed

lemma size_list_butlast: "size_list g (butlast xs) \<le> size_list g xs"
  by (induction xs) auto

lemma size_last_le: "xs \<noteq> [] \<Longrightarrow> g (last xs) < size_list g xs"
  by (induction xs) auto

function serialize ::
    "('a::linorder \<Rightarrow> bytes) \<Rightarrow> (op \<Rightarrow> bytes) \<Rightarrow> (op \<Rightarrow> 'k::linorder) \<Rightarrow> 'a timestamp \<Rightarrow> error + bytes"
  and serialize_items ::
    "('a::linorder \<Rightarrow> bytes) \<Rightarrow> (op \<Rightarrow> bytes) \<Rightarrow> (op \<Rightarrow> 'k::linorder) \<Rightarrow> (op \<times> 'a timestamp) list \<Rightarrow> error + bytes"
where
  "serialize att_serialize op_serialize op_key (Timestamp m atts os) =
     (if fcard atts = 0 \<and> length os = 0 then Inl EmptyTimestamp
      else
        let sorted_attestations = sorted_list_of_fset atts;
            out1 = (if length sorted_attestations > 1
                    then concat (map (\<lambda>attestation. [0xff, 0x00] @ att_serialize attestation)
                                   (butlast sorted_attestations))
                    else [])
        in if length os = 0
           then Inr (out1 @ [0x00] @ att_serialize (last sorted_attestations))
           else
             let out2 = (if length sorted_attestations > 0
                         then [0xff, 0x00] @ att_serialize (last sorted_attestations)
                         else []);
                 sorted_ops = sort_key (\<lambda>item. op_key (fst item)) os
             in case serialize_items att_serialize op_serialize op_key (butlast sorted_ops) of
                  Inl e \<Rightarrow> Inl e
                | Inr out3 \<Rightarrow>
                    (case serialize att_serialize op_serialize op_key (snd (last sorted_ops)) of
                       Inl e \<Rightarrow> Inl e
                     | Inr out4 \<Rightarrow>
                         Inr (out1 @ out2 @ out3 @ op_serialize (fst (last sorted_ops)) @ out4)))"
| "serialize_items att_serialize op_serialize op_key [] = Inr []"
| "serialize_items att_serialize op_serialize op_key ((op, stamp) # rest) =
     (case serialize att_serialize op_serialize op_key stamp of
        Inl e \<Rightarrow> Inl e
      | Inr out \<Rightarrow>
          (case serialize_items att_serialize op_serialize op_key rest of
             Inl e \<Rightarrow> Inl e
           | Inr outs \<Rightarrow> Inr ([0xff] @ op_serialize op @ out @ outs)))"
  by pat_completeness auto
termination
proof (relation "measure (\<lambda>x. case x of
           Inl (a, s, k, t) \<Rightarrow> 2 * size t
         | Inr (a, s, k, l) \<Rightarrow> 2 * size_list (size_prod (\<lambda>_. 0) size) l + 1)", goal_cases)
  case 1
  then show ?case by simp
next
  case (2 att_serialize op_serialize op_key m atts os x xa xb xc)
  have "size_list (size_prod (\<lambda>_. 0) size) (butlast xc) \<le> size_list (size_prod (\<lambda>_. 0) size) os"
    using 2 size_list_butlast[of _ "sort_key (\<lambda>item. op_key (fst item)) os"]
    by (simp add: size_list_sort_key)
  then show ?case by simp
next
  case (3 att_serialize op_serialize op_key m atts os x xa xb xc x2)
  have ne: "xc \<noteq> []"
  proof
    assume "xc = []"
    with 3 have "sort_key (\<lambda>item. op_key (fst item)) os = []" by simp
    then have "length os = 0" by (metis length_sort list.size(3))
    with 3 show False by simp
  qed
  have "size_prod (\<lambda>_. 0) size (last xc) < size_list (size_prod (\<lambda>_. 0) size) xc"
    using size_last_le[OF ne] by blast
  moreover have "size_list (size_prod (\<lambda>_. 0) size) xc = size_list (size_prod (\<lambda>_. 0) size) os"
    using 3 by (simp add: size_list_sort_key)
  moreover have "size (snd (last xc)) \<le> size_prod (\<lambda>_. 0) size (last xc)"
    by (cases "last xc") simp
  ultimately show ?case by simp
next
  case 4 then show ?case by simp
next
  case 5 then show ?case by simp
qed

text \<open>
  \<^verbatim>\<open>Timestamp.deserialize\<close>. The context is the input that is left; \<^verbatim>\<open>ctx.read_bytes(1)\<close>
  takes its first byte and fails on the empty input. The decoders of attestations and
  operations are parameters: each returns the value and the input left, or an error.
  \<open>deserialize_loop\<close> is the \<^verbatim>\<open>while\<close> loop with the final call after it, and
  \<open>do_tag_or_attestation\<close> the local function of that name. The recursion is bounded
  by fuel (every call and every iteration takes one unit), since nothing is known of how
  much input the decoders consume.
\<close>

function (sequential) deserialize ::
    "(bytes \<Rightarrow> bytes) \<Rightarrow> (bytes \<Rightarrow> error + 'a \<times> bytes) \<Rightarrow> (byte \<Rightarrow> bytes \<Rightarrow> error + op \<times> bytes) \<Rightarrow>
     nat \<Rightarrow> bytes \<Rightarrow> bytes \<Rightarrow> error + 'a timestamp \<times> bytes"
  and deserialize_loop ::
    "(bytes \<Rightarrow> bytes) \<Rightarrow> (bytes \<Rightarrow> error + 'a \<times> bytes) \<Rightarrow> (byte \<Rightarrow> bytes \<Rightarrow> error + op \<times> bytes) \<Rightarrow>
     nat \<Rightarrow> bytes \<Rightarrow> 'a timestamp \<Rightarrow> bytes \<Rightarrow> error + 'a timestamp \<times> bytes"
  and do_tag_or_attestation ::
    "(bytes \<Rightarrow> bytes) \<Rightarrow> (bytes \<Rightarrow> error + 'a \<times> bytes) \<Rightarrow> (byte \<Rightarrow> bytes \<Rightarrow> error + op \<times> bytes) \<Rightarrow>
     nat \<Rightarrow> bytes \<Rightarrow> 'a timestamp \<Rightarrow> byte \<Rightarrow> bytes \<Rightarrow> error + 'a timestamp \<times> bytes"
where
  "deserialize sha256 att_deserialize op_deserialize_from_tag 0 ctx initial_msg = Inl OutOfFuel"
| "deserialize sha256 att_deserialize op_deserialize_from_tag (Suc n) ctx initial_msg =
     deserialize_loop sha256 att_deserialize op_deserialize_from_tag n initial_msg
       (new_timestamp initial_msg) ctx"
| "deserialize_loop sha256 att_deserialize op_deserialize_from_tag 0 initial_msg self ctx = Inl OutOfFuel"
| "deserialize_loop sha256 att_deserialize op_deserialize_from_tag (Suc n) initial_msg self ctx =
     (case ctx of
        [] \<Rightarrow> Inl Truncated
      | tag # ctx1 \<Rightarrow>
          if tag = 0xff then
            (case ctx1 of
               [] \<Rightarrow> Inl Truncated
             | tag' # ctx2 \<Rightarrow>
                 (case do_tag_or_attestation sha256 att_deserialize op_deserialize_from_tag n
                         initial_msg self tag' ctx2 of
                    Inl e \<Rightarrow> Inl e
                  | Inr (self', ctx3) \<Rightarrow>
                      deserialize_loop sha256 att_deserialize op_deserialize_from_tag n
                        initial_msg self' ctx3))
          else do_tag_or_attestation sha256 att_deserialize op_deserialize_from_tag n
                 initial_msg self tag ctx1)"
| "do_tag_or_attestation sha256 att_deserialize op_deserialize_from_tag n initial_msg self tag ctx =
     (if tag = 0x00 then
        (case att_deserialize ctx of
           Inl e \<Rightarrow> Inl e
         | Inr (attestation, ctx') \<Rightarrow>
             Inr (Timestamp (msg self) (finsert attestation (attestations self)) (ops self), ctx'))
      else
        (case op_deserialize_from_tag tag ctx of
           Inl e \<Rightarrow> Inl e
         | Inr (op, ctx') \<Rightarrow>
             (case deserialize sha256 att_deserialize op_deserialize_from_tag n ctx'
                     (op_call sha256 op initial_msg) of
                Inl e \<Rightarrow> Inl e
              | Inr (stamp, ctx'') \<Rightarrow>
                  (case OpSet_setitem msg (ops self) op stamp of
                     (ops', Some e) \<Rightarrow> Inl e
                   | (ops', None) \<Rightarrow> Inr (Timestamp (msg self) (attestations self) ops', ctx'')))))"
  by pat_completeness auto
termination
  by (relation "measure (\<lambda>x. case x of
          Inl (h, a, d, n, c, m) \<Rightarrow> 3 * n
        | Inr (Inl (h, a, d, n, m, s, c)) \<Rightarrow> 3 * n + 2
        | Inr (Inr (h, a, d, n, m, s, t, c)) \<Rightarrow> 3 * n + 1)") auto

section \<open>Timestamps as objects\<close>

text \<open>
  A Python timestamp is an object: two operation maps may hold the same child, and a
  method changes the object it is called on. The store is the list of the timestamp
  objects made so far, and the address of an object is its index; \<^verbatim>\<open>ops\<close> maps an
  operation to the address of the child. No object is ever removed.
\<close>

record 'a node =
  node_msg :: bytes
  node_attestations :: "'a fset"
  node_ops :: "(op \<times> nat) list"

type_synonym 'a store = "'a node list"

text \<open>An argument that is either a timestamp (its address) or bytes.\<close>

datatype pyval = Ref nat | Bytes bytes

text \<open>\<^verbatim>\<open>Timestamp(msg)\<close>: a new object at the end of the store.\<close>

definition store_new :: "'a store \<Rightarrow> bytes \<Rightarrow> 'a store \<times> nat" where
  "store_new h m =
     (h @ [\<lparr>node_msg = m, node_attestations = {||}, node_ops = []\<rparr>], length h)"

text \<open>\<^verbatim>\<open>self.attestations.add(attestation)\<close>.\<close>

definition store_attest :: "'a store \<Rightarrow> nat \<Rightarrow> 'a \<Rightarrow> 'a store" where
  "store_attest h self attestation =
     h[self := (h ! self)\<lparr>node_attestations := finsert attestation (node_attestations (h ! self))\<rparr>]"

text \<open>\<^verbatim>\<open>self.ops[op] = new_timestamp\<close>: \<^const>\<open>OpSet_setitem\<close> on the map of the object.\<close>

definition store_setitem :: "'a store \<Rightarrow> nat \<Rightarrow> op \<Rightarrow> nat \<Rightarrow> 'a store \<times> error option" where
  "store_setitem h self op new_timestamp' =
     (let (ops', err) = OpSet_setitem (\<lambda>r. node_msg (h ! r)) (node_ops (h ! self)) op new_timestamp'
      in (h[self := (h ! self)\<lparr>node_ops := ops'\<rparr>], err))"

text \<open>
  \<^verbatim>\<open>self.ops.add(key)\<close>: the child under the key, or a new object over
  \<open>key(self.msg)\<close> stored under it.
\<close>

definition store_add :: "(bytes \<Rightarrow> bytes) \<Rightarrow> 'a store \<Rightarrow> nat \<Rightarrow> op \<Rightarrow> 'a store \<times> nat" where
  "store_add sha256 h self key =
     (case map_of (node_ops (h ! self)) key of
        Some v \<Rightarrow> (h, v)
      | None \<Rightarrow>
          (let (h1, v) = store_new h (op_call sha256 key (node_msg (h ! self)))
           in (h1[self := (h1 ! self)\<lparr>node_ops := AList.update key v (node_ops (h1 ! self))\<rparr>], v)))"

text \<open>
  \<^verbatim>\<open>self.merge(other)\<close> on objects. \<open>store_merge_items\<close> is the loop over
  \<^verbatim>\<open>other.ops.items()\<close>: the iterator holds the size the dict had when the loop began
  and its position; each \<^verbatim>\<open>next\<close> raises when the size of the dict has changed (the
  two timestamps may share objects), and stops at the end. The store is returned as
  the call leaves it, also when it raises. The recursion is bounded by fuel, a
  timestamp being able to reach itself through its operation map.
\<close>

function (sequential) store_merge ::
    "(bytes \<Rightarrow> bytes) \<Rightarrow> nat \<Rightarrow> 'a store \<Rightarrow> nat \<Rightarrow> pyval \<Rightarrow> 'a store \<times> error option"
  and store_merge_items ::
    "(bytes \<Rightarrow> bytes) \<Rightarrow> nat \<Rightarrow> 'a store \<Rightarrow> nat \<Rightarrow> nat \<Rightarrow> nat \<Rightarrow> nat \<Rightarrow> 'a store \<times> error option"
where
  "store_merge sha256 0 h self other = (h, Some OutOfFuel)"
| "store_merge sha256 (Suc n) h self other =
     (case other of
        Bytes b \<Rightarrow> (h, Some MergeTypeError)
      | Ref other' \<Rightarrow>
          if node_msg (h ! self) \<noteq> node_msg (h ! other') then (h, Some MergeMsgMismatch)
          else
            let h1 = h[self := (h ! self)\<lparr>node_attestations :=
                         node_attestations (h ! self) |\<union>| node_attestations (h ! other')\<rparr>]
            in store_merge_items sha256 n h1 self other' (length (node_ops (h1 ! other'))) 0)"
| "store_merge_items sha256 0 h self other' used i = (h, Some OutOfFuel)"
| "store_merge_items sha256 (Suc n) h self other' used i =
     (if length (node_ops (h ! other')) \<noteq> used then (h, Some DictChangedSize)
      else if i \<ge> used then (h, None)
      else
        let (other_op, other_op_stamp) = node_ops (h ! other') ! i;
            (h1, our_op_stamp) = store_add sha256 h self other_op;
            (h2, err) = store_merge sha256 n h1 our_op_stamp (Ref other_op_stamp)
        in case err of
             Some e \<Rightarrow> (h2, Some e)
           | None \<Rightarrow> store_merge_items sha256 n h2 self other' used (Suc i))"
  by pat_completeness auto
termination
  by (relation "measure (\<lambda>x. case x of
          Inl (s, n, h, a, b) \<Rightarrow> 2 * n
        | Inr (s, n, h, a, b, u, i) \<Rightarrow> 2 * n + 1)") auto

text \<open>\<^verbatim>\<open>Timestamp.deserialize\<close> on objects: as \<^const>\<open>deserialize\<close>, in the store.\<close>

function (sequential) store_deserialize ::
    "(bytes \<Rightarrow> bytes) \<Rightarrow> (bytes \<Rightarrow> error + 'a \<times> bytes) \<Rightarrow> (byte \<Rightarrow> bytes \<Rightarrow> error + op \<times> bytes) \<Rightarrow>
     nat \<Rightarrow> 'a store \<Rightarrow> bytes \<Rightarrow> bytes \<Rightarrow> 'a store \<times> (error + nat \<times> bytes)"
  and store_deserialize_loop ::
    "(bytes \<Rightarrow> bytes) \<Rightarrow> (bytes \<Rightarrow> error + 'a \<times> bytes) \<Rightarrow> (byte \<Rightarrow> bytes \<Rightarrow> error + op \<times> bytes) \<Rightarrow>
     nat \<Rightarrow> 'a store \<Rightarrow> bytes \<Rightarrow> nat \<Rightarrow> bytes \<Rightarrow> 'a store \<times> (error + nat \<times> bytes)"
  and store_do_tag_or_attestation ::
    "(bytes \<Rightarrow> bytes) \<Rightarrow> (bytes \<Rightarrow> error + 'a \<times> bytes) \<Rightarrow> (byte \<Rightarrow> bytes \<Rightarrow> error + op \<times> bytes) \<Rightarrow>
     nat \<Rightarrow> 'a store \<Rightarrow> bytes \<Rightarrow> nat \<Rightarrow> byte \<Rightarrow> bytes \<Rightarrow> 'a store \<times> (error + bytes)"
where
  "store_deserialize sha256 att_deserialize op_deserialize_from_tag 0 h ctx initial_msg =
     (h, Inl OutOfFuel)"
| "store_deserialize sha256 att_deserialize op_deserialize_from_tag (Suc n) h ctx initial_msg =
     (let (h1, self) = store_new h initial_msg
      in store_deserialize_loop sha256 att_deserialize op_deserialize_from_tag n h1
           initial_msg self ctx)"
| "store_deserialize_loop sha256 att_deserialize op_deserialize_from_tag 0 h initial_msg self ctx =
     (h, Inl OutOfFuel)"
| "store_deserialize_loop sha256 att_deserialize op_deserialize_from_tag (Suc n) h initial_msg self ctx =
     (case ctx of
        [] \<Rightarrow> (h, Inl Truncated)
      | tag # ctx1 \<Rightarrow>
          if tag = 0xff then
            (case ctx1 of
               [] \<Rightarrow> (h, Inl Truncated)
             | tag' # ctx2 \<Rightarrow>
                 (case store_do_tag_or_attestation sha256 att_deserialize op_deserialize_from_tag n
                         h initial_msg self tag' ctx2 of
                    (h', Inl e) \<Rightarrow> (h', Inl e)
                  | (h', Inr ctx3) \<Rightarrow>
                      store_deserialize_loop sha256 att_deserialize op_deserialize_from_tag n
                        h' initial_msg self ctx3))
          else
            (case store_do_tag_or_attestation sha256 att_deserialize op_deserialize_from_tag n
                    h initial_msg self tag ctx1 of
               (h', Inl e) \<Rightarrow> (h', Inl e)
             | (h', Inr ctx') \<Rightarrow> (h', Inr (self, ctx'))))"
| "store_do_tag_or_attestation sha256 att_deserialize op_deserialize_from_tag n h initial_msg self tag ctx =
     (if tag = 0x00 then
        (case att_deserialize ctx of
           Inl e \<Rightarrow> (h, Inl e)
         | Inr (attestation, ctx') \<Rightarrow> (store_attest h self attestation, Inr ctx'))
      else
        (case op_deserialize_from_tag tag ctx of
           Inl e \<Rightarrow> (h, Inl e)
         | Inr (op, ctx') \<Rightarrow>
             (case store_deserialize sha256 att_deserialize op_deserialize_from_tag n h ctx'
                     (op_call sha256 op initial_msg) of
                (h', Inl e) \<Rightarrow> (h', Inl e)
              | (h', Inr (stamp, ctx'')) \<Rightarrow>
                  (case store_setitem h' self op stamp of
                     (h'', Some e) \<Rightarrow> (h'', Inl e)
                   | (h'', None) \<Rightarrow> (h'', Inr ctx'')))))"
  by pat_completeness auto
termination
  by (relation "measure (\<lambda>x. case x of
          Inl (s, a, d, n, h, c, m) \<Rightarrow> 3 * n
        | Inr (Inl (s, a, d, n, h, m, r, c)) \<Rightarrow> 3 * n + 2
        | Inr (Inr (s, a, d, n, h, m, r, t, c)) \<Rightarrow> 3 * n + 1)") auto

text \<open>
  \<^verbatim>\<open>cat_then_unary_op\<close>. An argument that is not a timestamp becomes a new one; the
  unary operation is the value \<^verbatim>\<open>unary_op_cls()\<close>.
\<close>

definition as_timestamp :: "'a store \<Rightarrow> pyval \<Rightarrow> 'a store \<times> nat" where
  "as_timestamp h v = (case v of Ref r \<Rightarrow> (h, r) | Bytes b \<Rightarrow> store_new h b)"

definition cat_then_unary_op ::
  "(bytes \<Rightarrow> bytes) \<Rightarrow> op \<Rightarrow> 'a store \<Rightarrow> pyval \<Rightarrow> pyval \<Rightarrow> 'a store \<times> (error + nat)" where
  "cat_then_unary_op sha256 unary_op h left right =
     (let (h1, left') = as_timestamp h left;
          (h2, right') = as_timestamp h1 right;
          (h3, left_append_stamp) = store_add sha256 h2 left' (OpAppend (node_msg (h2 ! right')));
          (h4, right_prepend_stamp) = store_add sha256 h3 right' (OpPrepend (node_msg (h3 ! left')));
          (h5, err) = store_setitem h4 left' (OpAppend (node_msg (h4 ! right'))) right_prepend_stamp
      in case err of
           Some e \<Rightarrow> (h5, Inl e)
         | None \<Rightarrow> (let (h6, r) = store_add sha256 h5 right_prepend_stamp unary_op in (h6, Inr r)))"

definition cat_sha256 ::
  "(bytes \<Rightarrow> bytes) \<Rightarrow> 'a store \<Rightarrow> pyval \<Rightarrow> pyval \<Rightarrow> 'a store \<times> (error + nat)" where
  "cat_sha256 sha256 h left right = cat_then_unary_op sha256 OpSHA256 h left right"

definition cat_sha256d ::
  "(bytes \<Rightarrow> bytes) \<Rightarrow> 'a store \<Rightarrow> pyval \<Rightarrow> pyval \<Rightarrow> 'a store \<times> (error + nat)" where
  "cat_sha256d sha256 h left right =
     (case cat_sha256 sha256 h left right of
        (h1, Inl e) \<Rightarrow> (h1, Inl e)
      | (h1, Inr sha256_timestamp) \<Rightarrow>
          (let (h2, r) = store_add sha256 h1 sha256_timestamp OpSHA256 in (h2, Inr r)))"

text \<open>
  \<^verbatim>\<open>make_merkle_tree\<close>, with \<^verbatim>\<open>binop\<close> at its default. \<open>merkle_pairs\<close> is the
  \<^verbatim>\<open>for\<close> loop of one round: it returns \<^verbatim>\<open>next_stamps\<close> and \<^verbatim>\<open>prev_stamp\<close>. A
  round over \<open>n\<close> stamps leaves at most \<open>(n + 1) div 2\<close>, and the function returns
  when a round pairs nothing.
\<close>

fun merkle_pairs ::
  "(bytes \<Rightarrow> bytes) \<Rightarrow> 'a store \<Rightarrow> pyval option \<Rightarrow> pyval list \<Rightarrow> pyval list \<Rightarrow>
     'a store \<times> (error + pyval list \<times> pyval option)" where
  "merkle_pairs sha256 h prev_stamp [] next_stamps = (h, Inr (next_stamps, prev_stamp))"
| "merkle_pairs sha256 h prev_stamp (stamp # stamps) next_stamps =
     (case prev_stamp of
        Some prev \<Rightarrow>
          (case cat_sha256 sha256 h prev stamp of
             (h', Inl e) \<Rightarrow> (h', Inl e)
           | (h', Inr r) \<Rightarrow> merkle_pairs sha256 h' None stamps (next_stamps @ [Ref r]))
      | None \<Rightarrow> merkle_pairs sha256 h (Some stamp) stamps next_stamps)"

lemma merkle_pairs_length:
  "merkle_pairs sha256 h prev_stamp stamps next_stamps = (h', Inr (next_stamps', prev_stamp')) \<Longrightarrow>
     2 * length next_stamps' + (case prev_stamp' of None \<Rightarrow> 0 | Some p \<Rightarrow> 1)
       = 2 * length next_stamps + (case prev_stamp of None \<Rightarrow> 0 | Some p \<Rightarrow> 1) + length stamps"
  by (induction sha256 h prev_stamp stamps next_stamps rule: merkle_pairs.induct)
     (auto split: option.splits prod.splits sum.splits)

function make_merkle_tree ::
  "(bytes \<Rightarrow> bytes) \<Rightarrow> 'a store \<Rightarrow> pyval list \<Rightarrow> 'a store \<times> (error + pyval option)" where
  "make_merkle_tree sha256 h stamps =
     (case stamps of
        [] \<Rightarrow> (h, Inl NeedAtLeastOne)
      | prev_stamp # rest \<Rightarrow>
          (case merkle_pairs sha256 h (Some prev_stamp) rest [] of
             (h', Inl e) \<Rightarrow> (h', Inl e)
           | (h', Inr (next_stamps, prev_stamp')) \<Rightarrow>
               if next_stamps = [] then (h', Inr prev_stamp')
               else make_merkle_tree sha256 h'
                      (next_stamps @ (case prev_stamp' of None \<Rightarrow> [] | Some p \<Rightarrow> [p]))))"
  by pat_completeness auto
termination
  apply (relation "measure (\<lambda>(s, h, stamps). length stamps)")
   apply simp
  apply clarsimp
  subgoal for sha256 h x21 x22 x a b
    using merkle_pairs_length[of sha256 h "Some x21" x22 "[]" x a b]
    by (cases a; cases b) auto
  done

declare make_merkle_tree.simps [simp del]


section \<open>The properties of the specification\<close>

text \<open>
  The child-message invariant of the data model: at every node, the message of the
  child stored under an operation is that operation applied to the node's message.
\<close>

fun child_msg_inv :: "(bytes \<Rightarrow> bytes) \<Rightarrow> 'a timestamp \<Rightarrow> bool" where
  "child_msg_inv sha256 (Timestamp m atts os) =
     (\<forall>(op, child) \<in> set os. msg child = op_call sha256 op m \<and> child_msg_inv sha256 child)"

text \<open>
  A dict holds a key once. The association lists of a timestamp value that stands for a
  Python object therefore have distinct keys, at every node.
\<close>

fun keys_distinct :: "'a timestamp \<Rightarrow> bool" where
  "keys_distinct (Timestamp m atts os) =
     (distinct (map fst os) \<and> (\<forall>(op, child) \<in> set os. keys_distinct child))"

text \<open>
  Equality as the specification words it: the same message, the same attestations, and
  operation maps with the same keys and, under each key, children that are equal in
  this same sense.
\<close>

fun equals :: "'a timestamp \<Rightarrow> 'a timestamp \<Rightarrow> bool" where
  "equals (Timestamp m1 a1 o1) (Timestamp m2 a2 o2) =
     (m1 = m2 \<and> a1 = a2 \<and> fst ` set o1 = fst ` set o2 \<and>
      (\<forall>(k, v) \<in> set o1. case map_of o2 k of None \<Rightarrow> False | Some v' \<Rightarrow> equals v v'))"

text \<open>
  Every node of the tree has an attestation or an operation.
\<close>

fun all_nonempty :: "'a timestamp \<Rightarrow> bool" where
  "all_nonempty (Timestamp m atts os) =
     ((atts \<noteq> {||} \<or> os \<noteq> []) \<and> (\<forall>(op, child) \<in> set os. all_nonempty child))"

text \<open>
  The bytes \<^verbatim>\<open>serialize\<close> writes for a timestamp (nothing where it raises), and the
  encoding of a node as the specification gives it: \<open>n'\<close> attestations, each after
  \<open>0xff 0x00\<close>, then all operations but the last, each after \<open>0xff\<close> and followed
  by the encoding of its child, then the terminal item.
\<close>

definition encoding ::
  "('a::linorder \<Rightarrow> bytes) \<Rightarrow> (op \<Rightarrow> bytes) \<Rightarrow> (op \<Rightarrow> 'k::linorder) \<Rightarrow> 'a timestamp \<Rightarrow> bytes" where
  "encoding att_serialize op_serialize op_key t =
     (case serialize att_serialize op_serialize op_key t of Inr out \<Rightarrow> out | Inl e \<Rightarrow> [])"

definition node_encoding ::
  "('a::linorder \<Rightarrow> bytes) \<Rightarrow> (op \<Rightarrow> bytes) \<Rightarrow> (op \<Rightarrow> 'k::linorder) \<Rightarrow> 'a timestamp \<Rightarrow> bytes" where
  "node_encoding att_serialize op_serialize op_key t =
     (let As = sorted_list_of_fset (attestations t);
          Os = sort_key (\<lambda>item. op_key (fst item)) (ops t);
          n = length As;
          m = length Os;
          n' = (if m > 0 then n else n - 1)
      in concat (map (\<lambda>a. [0xff, 0x00] @ att_serialize a) (take n' As))
         @ concat (map (\<lambda>(op, child). [0xff] @ op_serialize op
                          @ encoding att_serialize op_serialize op_key child) (take (m - 1) Os))
         @ (if m > 0
            then op_serialize (fst (last Os))
                 @ encoding att_serialize op_serialize op_key (snd (last Os))
            else [0x00] @ att_serialize (last As)))"

text \<open>
  The timestamp that \<^verbatim>\<open>deserialize\<close> builds from the bytes of a timestamp: the same
  tree with, at every node, the operations in the order \<^verbatim>\<open>serialize\<close> wrote them.
\<close>

fun canonical :: "(op \<Rightarrow> 'k::linorder) \<Rightarrow> 'a timestamp \<Rightarrow> 'a timestamp" where
  "canonical op_key (Timestamp m atts os) =
     Timestamp m atts
       (map (\<lambda>item. (fst item, canonical op_key (snd item)))
            (sort_key (\<lambda>item. op_key (fst item)) os))"

text \<open>
  Modelled from the spec: the contract of the attestation and operation codecs, which
  live in modules that are not part of the file. An attestation is decoded from its own
  bytes, whatever follows them. An operation is written as a tag byte and a payload; the
  tag is neither of the control bytes \<open>0x00\<close> and \<open>0xff\<close>, and
  \<^verbatim>\<open>deserialize_from_tag\<close>, given the tag, decodes the operation from the payload,
  whatever follows it.
\<close>

definition attestation_codec :: "('a \<Rightarrow> bytes) \<Rightarrow> (bytes \<Rightarrow> error + 'a \<times> bytes) \<Rightarrow> bool" where
  "attestation_codec att_serialize att_deserialize \<longleftrightarrow>
     (\<forall>a rest. att_deserialize (att_serialize a @ rest) = Inr (a, rest))"

definition op_codec :: "(op \<Rightarrow> bytes) \<Rightarrow> (byte \<Rightarrow> bytes \<Rightarrow> error + op \<times> bytes) \<Rightarrow> bool" where
  "op_codec op_serialize op_deserialize_from_tag \<longleftrightarrow>
     (\<forall>op. \<exists>tag payload. op_serialize op = tag # payload \<and> tag \<noteq> 0x00 \<and> tag \<noteq> 0xff \<and>
        (\<forall>rest. op_deserialize_from_tag tag (payload @ rest) = Inr (op, rest)))"

text \<open>
  An instance of the two contracts, for the examples: an attestation is one byte,
  written as itself; a byte string is written byte by byte, each after \<open>0x01\<close>, and
  closed by \<open>0x00\<close>; SHA-256 has the tag \<open>0x08\<close>, append \<open>0xf0\<close> and prepend
  \<open>0xf1\<close>; operations are ordered by tag.
\<close>

definition example_att_serialize :: "byte \<Rightarrow> bytes" where
  "example_att_serialize a = [a]"

definition example_att_deserialize :: "bytes \<Rightarrow> error + byte \<times> bytes" where
  "example_att_deserialize ctx = (case ctx of [] \<Rightarrow> Inl Truncated | a # rest \<Rightarrow> Inr (a, rest))"

fun example_write_varbytes :: "bytes \<Rightarrow> bytes" where
  "example_write_varbytes [] = [0]"
| "example_write_varbytes (b # bs) = 1 # b # example_write_varbytes bs"

fun example_read_varbytes :: "bytes \<Rightarrow> error + bytes \<times> bytes" where
  "example_read_varbytes [] = Inl Truncated"
| "example_read_varbytes [t] = (if t = 0 then Inr ([], []) else Inl Truncated)"
| "example_read_varbytes (t # b # rest) =
     (if t = 0 then Inr ([], b # rest)
      else case example_read_varbytes rest of
             Inl e \<Rightarrow> Inl e
           | Inr (payload, rest') \<Rightarrow> Inr (b # payload, rest'))"

fun example_op_serialize :: "op \<Rightarrow> bytes" where
  "example_op_serialize OpSHA256 = [0x08]"
| "example_op_serialize (OpAppend arg) = 0xf0 # example_write_varbytes arg"
| "example_op_serialize (OpPrepend arg) = 0xf1 # example_write_varbytes arg"

definition example_op_deserialize_from_tag :: "byte \<Rightarrow> bytes \<Rightarrow> error + op \<times> bytes" where
  "example_op_deserialize_from_tag tag ctx =
     (if tag = 0x08 then Inr (OpSHA256, ctx)
      else if tag = 0xf0 then
        (case example_read_varbytes ctx of Inl e \<Rightarrow> Inl e | Inr (arg, rest) \<Rightarrow> Inr (OpAppend arg, rest))
      else if tag = 0xf1 then
        (case example_read_varbytes ctx of Inl e \<Rightarrow> Inl e | Inr (arg, rest) \<Rightarrow> Inr (OpPrepend arg, rest))
      else Inl CodecError)"

definition example_op_key :: "op \<Rightarrow> nat" where
  "example_op_key op = unat (hd (example_op_serialize op))"

definition example_timestamp :: "byte timestamp" where
  "example_timestamp =
     Timestamp [1] {|3, 2|}
       [(OpPrepend [5], Timestamp [5, 1] {|9|} []),
        (OpSHA256, Timestamp [1] {|3|} [(OpAppend [2], Timestamp [1, 2] {|7|} [])])]"


text \<open>
  The child-message invariant in a store: every entry of every operation map holds the
  address of an object of the store, whose message is the operation applied to the
  message of the owner.
\<close>

definition store_inv :: "(bytes \<Rightarrow> bytes) \<Rightarrow> 'a store \<Rightarrow> bool" where
  "store_inv sha256 h \<longleftrightarrow>
     (\<forall>a < length h. \<forall>(op, child) \<in> set (node_ops (h ! a)).
        child < length h \<and> node_msg (h ! child) = op_call sha256 op (node_msg (h ! a)))"

text \<open>
  A store that a call has left: it keeps the invariant, holds the objects it held, and
  no message has changed.
\<close>

definition store_ext :: "(bytes \<Rightarrow> bytes) \<Rightarrow> 'a store \<Rightarrow> 'a store \<Rightarrow> bool" where
  "store_ext sha256 h h' \<longleftrightarrow>
     store_inv sha256 h' \<and> length h \<le> length h' \<and>
     (\<forall>a < length h. node_msg (h' ! a) = node_msg (h ! a))"

text \<open>\<^verbatim>\<open>a.ops[k]\<close>, if there is such an entry.\<close>

definition child :: "'a store \<Rightarrow> nat \<Rightarrow> op \<Rightarrow> nat option" where
  "child h a k = map_of (node_ops (h ! a)) k"

text \<open>An argument is an object of the store or bytes; the message it stands for.\<close>

definition valid_ref :: "'a store \<Rightarrow> pyval \<Rightarrow> bool" where
  "valid_ref h v = (case v of Ref r \<Rightarrow> r < length h | Bytes b \<Rightarrow> True)"

definition msg_of :: "'a store \<Rightarrow> pyval \<Rightarrow> bytes" where
  "msg_of h v = (case v of Ref r \<Rightarrow> node_msg (h ! r) | Bytes b \<Rightarrow> b)"

text \<open>
  A program over the public operations that the invariant is claimed for: a list of
  calls, each run in the store the call before it left, from the empty store. A call
  names the objects it works on by address, and a Python reference is always one of an
  object, so the run is defined when every address is one of the store. The calls of
  \<^verbatim>\<open>merge\<close> and \<^verbatim>\<open>deserialize\<close> carry their fuel; a call that raises leaves the
  store as it then is.
\<close>

datatype 'a call =
    CallNew bytes
  | CallAttest nat 'a
  | CallAdd nat op
  | CallMerge nat nat pyval
  | CallDeserialize nat bytes bytes
  | CallCat op pyval pyval
  | CallMerkle "pyval list"

fun call_ok :: "'a store \<Rightarrow> 'a call \<Rightarrow> bool" where
  "call_ok h (CallNew m) = True"
| "call_ok h (CallAttest self attestation) = (self < length h)"
| "call_ok h (CallAdd self key) = (self < length h)"
| "call_ok h (CallMerge fuel self other) = (self < length h \<and> valid_ref h other)"
| "call_ok h (CallDeserialize fuel ctx initial_msg) = True"
| "call_ok h (CallCat unary_op left right) = (valid_ref h left \<and> valid_ref h right)"
| "call_ok h (CallMerkle stamps) = list_all (valid_ref h) stamps"

fun exec_call ::
  "(bytes \<Rightarrow> bytes) \<Rightarrow> (bytes \<Rightarrow> error + 'a \<times> bytes) \<Rightarrow> (byte \<Rightarrow> bytes \<Rightarrow> error + op \<times> bytes) \<Rightarrow>
     'a store \<Rightarrow> 'a call \<Rightarrow> 'a store" where
  "exec_call sha256 att_deserialize op_deserialize_from_tag h (CallNew m) = fst (store_new h m)"
| "exec_call sha256 att_deserialize op_deserialize_from_tag h (CallAttest self attestation) =
     store_attest h self attestation"
| "exec_call sha256 att_deserialize op_deserialize_from_tag h (CallAdd self key) =
     fst (store_add sha256 h self key)"
| "exec_call sha256 att_deserialize op_deserialize_from_tag h (CallMerge fuel self other) =
     fst (store_merge sha256 fuel h self other)"
| "exec_call sha256 att_deserialize op_deserialize_from_tag h (CallDeserialize fuel ctx initial_msg) =
     fst (store_deserialize sha256 att_deserialize op_deserialize_from_tag fuel h ctx initial_msg)"
| "exec_call sha256 att_deserialize op_deserialize_from_tag h (CallCat unary_op left right) =
     fst (cat_then_unary_op sha256 unary_op h left right)"
| "exec_call sha256 att_deserialize op_deserialize_from_tag h (CallMerkle stamps) =
     fst (make_merkle_tree sha256 h stamps)"

fun run_calls ::
  "(bytes \<Rightarrow> bytes) \<Rightarrow> (bytes \<Rightarrow> error + 'a \<times> bytes) \<Rightarrow> (byte \<Rightarrow> bytes \<Rightarrow> error + op \<times> bytes) \<Rightarrow>
     'a store \<Rightarrow> 'a call list \<Rightarrow> 'a store option" where
  "run_calls sha256 att_deserialize op_deserialize_from_tag h [] = Some h"
| "run_calls sha256 att_deserialize op_deserialize_from_tag h (c # cs) =
     (if call_ok h c
      then run_calls sha256 att_deserialize op_deserialize_from_tag
             (exec_call sha256 att_deserialize op_deserialize_from_tag h c) cs
      else None)"

text \<open>
  Stores for the examples: three timestamps over \<open>[1]\<close>, \<open>[2]\<close>, \<open>[3]\<close>; and stores
  in which \<^verbatim>\<open>ops[OpAppend([2])] = Timestamp([9])\<close> was assigned in the first timestamp,
  whose message is \<open>[1]\<close>. The timestamp value with such a child.
\<close>

definition example_store :: "byte store" where
  "example_store =
     [\<lparr>node_msg = [1], node_attestations = {||}, node_ops = []\<rparr>,
      \<lparr>node_msg = [2], node_attestations = {||}, node_ops = []\<rparr>,
      \<lparr>node_msg = [3], node_attestations = {||}, node_ops = []\<rparr>]"


definition example_stale_store :: "byte store" where
  "example_stale_store =
     fst (store_setitem (fst (store_new (fst (store_new (fst (store_new [] [1])) [2])) [9]))
            0 (OpAppend [2]) 2)"

definition example_stale_leaves :: "byte store" where
  "example_stale_leaves =
     fst (store_setitem
            (fst (store_new (fst (store_new (fst (store_new (fst (store_new [] [1])) [2])) [3])) [9]))
            0 (OpAppend [2]) 3)"


section \<open>Equality\<close>

text \<open>
  C1. The claim: two timestamps are equal exactly when their messages are equal, their
  attestation sets are equal and their operation maps agree recursively. The code's
  \<^verbatim>\<open>__eq__\<close> never looks at the attestations: a timestamp over the empty message with
  one attestation and a timestamp over the empty message with none compare equal,
  although they differ in the sense of the claim.
\<close>

theorem timestamp_eq_ignores_attestations:
  "timestamp_eq (Timestamp [] {|0::nat|} []) (Timestamp [] {||} []) \<and>
   \<not> equals (Timestamp [] {|0::nat|} []) (Timestamp [] {||} [])"
  by simp

text \<open>The other direction holds: what the claim calls equal, the code calls equal.\<close>

lemma equals_imp_timestamp_eq:
  "keys_distinct t1 \<Longrightarrow> keys_distinct t2 \<Longrightarrow> equals t1 t2 \<Longrightarrow> timestamp_eq t1 t2"
proof (induction t1 t2 rule: timestamp_eq.induct)
  case (1 m1 a1 o1 m2 a2 o2)
  have len: "length o1 = length o2"
  proof -
    have "card (fst ` set o1) = length o1"
      using distinct_card[of "map fst o1"] "1.prems"(1) by simp
    moreover have "card (fst ` set o2) = length o2"
      using distinct_card[of "map fst o2"] "1.prems"(2) by simp
    moreover have "fst ` set o1 = fst ` set o2" using "1.prems"(3) by simp
    ultimately show ?thesis by simp
  qed
  have "case map_of o2 k of None \<Rightarrow> False | Some v' \<Rightarrow> timestamp_eq v v'"
    if kv: "(k, v) \<in> set o1" for k v
  proof -
    from 1 kv obtain v' where v': "map_of o2 k = Some v'" "equals v v'"
      by (fastforce split: option.splits)
    have "keys_distinct v" using 1 kv by auto
    moreover have "keys_distinct v'" using 1 v' by (auto dest: map_of_SomeD)
    ultimately have "timestamp_eq v v'" using "1.IH"[OF kv refl v'(1)] v' by simp
    then show ?thesis using v' by simp
  qed
  then show ?case using 1 len by auto
qed

section \<open>Assignment into the operation map\<close>

text \<open>
  C6, as stated, fails: the claim says that \<^verbatim>\<open>P.ops[op] = C\<close> raises whenever the
  message of \<open>C\<close> differs from \<open>op\<close> applied to the message of \<open>P\<close>. The code compares
  with the entry that is already there, and stores without any check when there is
  none: on a new timestamp over the empty message, a child over the message \<open>[1]\<close> is
  stored under SHA-256 although (with the identity for the hash) \<open>[1]\<close> is not the
  hash of the empty message.
\<close>

theorem setitem_unchecked_insert:
  "OpSet_setitem msg (ops (new_timestamp [] :: nat timestamp)) OpSHA256 (new_timestamp [1])
     = ([(OpSHA256, new_timestamp [1])], None) \<and>
   msg (new_timestamp [1] :: nat timestamp)
     \<noteq> op_call (\<lambda>m. m) OpSHA256 (msg (new_timestamp [] :: nat timestamp))"
  by (simp add: OpSet_setitem_def new_timestamp_def)

text \<open>
  C6, amended. For a parent \<open>P\<close> whose entries satisfy the child-message invariant:
  when \<open>op\<close> has no entry, the assignment stores \<open>C\<close> whatever its message is; when
  \<open>op\<close> has an entry and the message of \<open>C\<close> differs from \<open>op\<close> applied to the message
  of \<open>P\<close>, the assignment raises and leaves the map as it was; when \<open>op\<close> has an entry
  and the messages agree, the entry is replaced by \<open>C\<close>.
\<close>

theorem setitem_behaviour:
  assumes inv: "\<forall>(k, child) \<in> set (ops P). msg child = op_call sha256 k (msg P)"
  shows "(map_of (ops P) op = None \<longrightarrow>
            (\<exists>ops'. OpSet_setitem msg (ops P) op C = (ops', None) \<and>
                    map_of ops' = (map_of (ops P))(op \<mapsto> C)))
       \<and> (map_of (ops P) op \<noteq> None \<and> msg C \<noteq> op_call sha256 op (msg P) \<longrightarrow>
            OpSet_setitem msg (ops P) op C = (ops P, Some ExistingResultMismatch))
       \<and> (map_of (ops P) op \<noteq> None \<and> msg C = op_call sha256 op (msg P) \<longrightarrow>
            (\<exists>ops'. OpSet_setitem msg (ops P) op C = (ops', None) \<and>
                    map_of ops' = (map_of (ops P))(op \<mapsto> C)))"
proof -
  have ex: "msg E = op_call sha256 op (msg P)" if "map_of (ops P) op = Some E" for E
    using inv map_of_SomeD[OF that] by auto
  show ?thesis
    by (auto simp: OpSet_setitem_def update_conv' ex split: option.splits)
qed

text \<open>
  The amended claim at a parent over the empty message with a SHA-256 child (the hash
  being the identity): assigning a child over \<open>[1]\<close> under SHA-256 raises and changes
  nothing, and assigning a child over the empty message replaces the entry.
\<close>

theorem setitem_behaviour_witness:
  "OpSet_setitem msg (ops (Timestamp [] {||} [(OpSHA256, Timestamp [] {|0::nat|} [])]))
       OpSHA256 (Timestamp [1] {||} [])
     = (ops (Timestamp [] {||} [(OpSHA256, Timestamp [] {|0::nat|} [])]),
        Some ExistingResultMismatch)"
  using setitem_behaviour[of "Timestamp [] {||} [(OpSHA256, Timestamp [] {|0::nat|} [])]"
      "\<lambda>m. m" OpSHA256 "Timestamp [1] {||} []"]
  by simp

section \<open>Serialization\<close>

lemma sorted_list_of_fset_eq_Nil: "sorted_list_of_fset S = [] \<longleftrightarrow> S = {||}"
proof
  assume "sorted_list_of_fset S = []"
  then have "fset_of_list (sorted_list_of_fset S) = fset_of_list []" by simp
  then show "S = {||}" by simp
next
  assume "S = {||}"
  then show "sorted_list_of_fset S = []" by (simp add: sorted_list_of_fset.rep_eq)
qed

lemma serialize_no_ops:
  "serialize aser oser okey (Timestamp m atts []) =
     (if atts = {||} then Inl EmptyTimestamp
      else Inr (concat (map (\<lambda>a. [0xff, 0x00] @ aser a) (butlast (sorted_list_of_fset atts)))
                @ [0x00] @ aser (last (sorted_list_of_fset atts))))"
proof (cases "sorted_list_of_fset atts" rule: rev_cases)
  case Nil
  then have "atts = {||}" by (simp add: sorted_list_of_fset_eq_Nil)
  then show ?thesis by simp
next
  case (snoc ys y)
  then have "atts \<noteq> {||}" using sorted_list_of_fset_eq_Nil[of atts] by simp
  then show ?thesis using snoc by (cases ys) (simp_all add: Let_def)
qed

lemma serialize_with_ops:
  assumes "os \<noteq> []"
  shows "serialize aser oser okey (Timestamp m atts os) =
     (case serialize_items aser oser okey (butlast (sort_key (\<lambda>item. okey (fst item)) os)) of
        Inl e \<Rightarrow> Inl e
      | Inr out3 \<Rightarrow>
          (case serialize aser oser okey (snd (last (sort_key (\<lambda>item. okey (fst item)) os))) of
             Inl e \<Rightarrow> Inl e
           | Inr out4 \<Rightarrow>
               Inr (concat (map (\<lambda>a. [0xff, 0x00] @ aser a) (sorted_list_of_fset atts))
                    @ out3 @ oser (fst (last (sort_key (\<lambda>item. okey (fst item)) os))) @ out4)))"
proof (cases "serialize_items aser oser okey (butlast (sort_key (\<lambda>item. okey (fst item)) os))")
  case (Inl e)
  then show ?thesis using assms by (simp add: Let_def)
next
  case o3: (Inr out3)
  show ?thesis
  proof (cases "serialize aser oser okey (snd (last (sort_key (\<lambda>item. okey (fst item)) os)))")
    case (Inl e)
    then show ?thesis using assms o3 by (simp add: Let_def)
  next
    case o4: (Inr out4)
    show ?thesis
    proof (cases "sorted_list_of_fset atts" rule: rev_cases)
      case Nil
      then show ?thesis using assms o3 o4 by (simp add: Let_def)
    next
      case (snoc ys y)
      then show ?thesis using assms o3 o4 by (cases ys) (simp_all add: Let_def)
    qed
  qed
qed

lemma sort_key_eq_Nil: "sort_key f xs = [] \<longleftrightarrow> xs = []"
proof
  assume "sort_key f xs = []"
  then have "length xs = 0" using length_sort[of f xs] by simp
  then show "xs = []" by simp
qed simp

lemma set_butlast_last: "xs \<noteq> [] \<Longrightarrow> set xs = insert (last xs) (set (butlast xs))"
  by (cases xs rule: rev_cases) auto

lemma serialize_total_aux:
  "serialize aser oser okey t =
     (if all_nonempty t then Inr (encoding aser oser okey t) else Inl EmptyTimestamp)"
  "serialize_items aser oser okey items =
     (if \<forall>(op, child) \<in> set items. all_nonempty child
      then Inr (concat (map (\<lambda>(op, child). [0xff] @ oser op @ encoding aser oser okey child) items))
      else Inl EmptyTimestamp)"
proof (induction aser oser okey t and aser oser okey items rule: serialize_serialize_items.induct)
  case (1 aser oser okey m atts os)
  let ?so = "sort_key (\<lambda>item. okey (fst item)) os"
  let ?t = "Timestamp m atts os"
  have enc: "encoding aser oser okey ?t = out" if "serialize aser oser okey ?t = Inr out" for out
    unfolding encoding_def that by simp
  show ?case
  proof (cases "os = []")
    case True
    show ?thesis
    proof (cases "atts = {||}")
      case e: True
      then show ?thesis using True by simp
    next
      case ne: False
      then have "\<exists>out. serialize aser oser okey ?t = Inr out"
        using True serialize_no_ops[of aser oser okey m atts] by simp
      then obtain out where o: "serialize aser oser okey ?t = Inr out" by blast
      moreover have "all_nonempty ?t" using True ne by simp
      ultimately show ?thesis using enc[OF o] by (simp del: serialize.simps)
    qed
  next
    case False
    then have ne: "?so \<noteq> []" by (simp add: sort_key_eq_Nil)
    have set_so: "set os = insert (last ?so) (set (butlast ?so))"
      using set_butlast_last[OF ne] by simp
    have IH1: "serialize_items aser oser okey (butlast ?so) =
       (if \<forall>(op, child) \<in> set (butlast ?so). all_nonempty child
        then Inr (concat (map (\<lambda>(op, child). [0xff] @ oser op @ encoding aser oser okey child) (butlast ?so)))
        else Inl EmptyTimestamp)"
      using "1.IH"(1) False by simp
    have "last ?so \<in> set os" using set_so by blast
    have an: "all_nonempty ?t \<longleftrightarrow>
       (\<forall>(op, child) \<in> set (butlast ?so). all_nonempty child) \<and> all_nonempty (snd (last ?so))"
    proof -
      have "all_nonempty ?t \<longleftrightarrow> (\<forall>x \<in> set os. all_nonempty (snd x))"
        using False by (auto split: prod.splits)
      also have "\<dots> \<longleftrightarrow> (\<forall>x \<in> set (butlast ?so). all_nonempty (snd x)) \<and> all_nonempty (snd (last ?so))"
        by (subst set_so) auto
      finally show ?thesis by (auto split: prod.splits)
    qed
    show ?thesis
    proof (cases "\<forall>(op, child) \<in> set (butlast ?so). all_nonempty child")
      case a1: True
      then obtain out3 where o3: "serialize_items aser oser okey (butlast ?so) = Inr out3"
        using IH1 by simp
      have IH2: "serialize aser oser okey (snd (last ?so)) =
           (if all_nonempty (snd (last ?so)) then Inr (encoding aser oser okey (snd (last ?so)))
            else Inl EmptyTimestamp)"
        using "1.IH"(2)[OF _ refl refl _ refl refl o3] False by simp
      show ?thesis
      proof (cases "all_nonempty (snd (last ?so))")
        case a2: True
        then have "\<exists>out. serialize aser oser okey ?t = Inr out"
          using serialize_with_ops[OF False, of aser oser okey m atts] o3 IH2 by simp
        then obtain out where o: "serialize aser oser okey ?t = Inr out" by blast
        moreover have "all_nonempty ?t" using an a1 a2 by blast
        ultimately show ?thesis using enc[OF o] by (simp del: serialize.simps)
      next
        case na2: False
        then have "serialize aser oser okey ?t = Inl EmptyTimestamp"
          using serialize_with_ops[OF False, of aser oser okey m atts] o3 IH2 by simp
        moreover have "\<not> all_nonempty ?t" using an na2 by blast
        ultimately show ?thesis by (simp del: serialize.simps)
      qed
    next
      case na1: False
      then have "serialize_items aser oser okey (butlast ?so) = Inl EmptyTimestamp"
        using IH1 by (simp only: if_False)
      then have "serialize aser oser okey ?t = Inl EmptyTimestamp"
        using serialize_with_ops[OF False, of aser oser okey m atts] by simp
      moreover have "\<not> all_nonempty ?t" using an na1 by blast
      ultimately show ?thesis by (simp del: serialize.simps)
    qed
  qed
next
  case (2 aser oser okey)
  then show ?case by simp
next
  case (3 aser oser okey op stamp rest)
  then show ?case by (auto split: sum.splits)
qed

lemma encoding_eq_node_encoding:
  assumes "all_nonempty t"
  shows "encoding aser oser okey t = node_encoding aser oser okey t"
proof (cases t)
  case (Timestamp m atts os)
  let ?so = "sort_key (\<lambda>item. okey (fst item)) os"
  let ?A = "sorted_list_of_fset atts"
  show ?thesis
  proof (cases "os = []")
    case True
    then have ne: "atts \<noteq> {||}" using assms Timestamp by simp
    have "serialize aser oser okey t =
        Inr (concat (map (\<lambda>a. [0xff, 0x00] @ aser a) (butlast ?A)) @ [0x00] @ aser (last ?A))"
      using serialize_no_ops[of aser oser okey m atts] True ne Timestamp by simp
    then have "encoding aser oser okey t =
        concat (map (\<lambda>a. [0xff, 0x00] @ aser a) (butlast ?A)) @ [0x00] @ aser (last ?A)"
      by (simp add: encoding_def)
    then show ?thesis
      using True Timestamp by (simp add: node_encoding_def Let_def butlast_conv_take)
  next
    case False
    then have len: "length ?so \<noteq> 0" by simp
    have set_so: "set os = insert (last ?so) (set (butlast ?so))"
      using set_butlast_last[of ?so] False by (simp add: sort_key_eq_Nil)
    have all: "\<forall>x \<in> set os. all_nonempty (snd x)" using assms Timestamp by auto
    have a1: "\<forall>(op, child) \<in> set (butlast ?so). all_nonempty child"
      using all set_so by auto
    have a2: "all_nonempty (snd (last ?so))"
    proof -
      have "last ?so \<in> set os" using set_so by blast
      then show ?thesis using all by blast
    qed
    have "serialize aser oser okey t =
        Inr (concat (map (\<lambda>a. [0xff, 0x00] @ aser a) ?A)
             @ concat (map (\<lambda>(op, child). [0xff] @ oser op @ encoding aser oser okey child) (butlast ?so))
             @ oser (fst (last ?so)) @ encoding aser oser okey (snd (last ?so)))"
      using serialize_with_ops[OF False, of aser oser okey m atts]
        serialize_total_aux(2)[of aser oser okey "butlast ?so"]
        serialize_total_aux(1)[of aser oser okey "snd (last ?so)"] a1 a2 Timestamp
      by (simp del: serialize.simps)
    then have "encoding aser oser okey t =
        concat (map (\<lambda>a. [0xff, 0x00] @ aser a) ?A)
             @ concat (map (\<lambda>(op, child). [0xff] @ oser op @ encoding aser oser okey child) (butlast ?so))
             @ oser (fst (last ?so)) @ encoding aser oser okey (snd (last ?so))"
      by (simp add: encoding_def del: serialize.simps)
    then show ?thesis
      using False Timestamp
      by (simp add: node_encoding_def Let_def butlast_conv_take sort_key_eq_Nil)
  qed
qed

text \<open>
  C3, as stated, fails: the claim says that \<^verbatim>\<open>serialize\<close> raises exactly when the node
  has no attestations and no operations. The recursion into the children raises as
  well: a node with one operation whose child is empty has an operation, and its
  serialization raises.
\<close>

theorem serialize_raises_on_empty_child:
  "serialize (\<lambda>a::byte. [a]) (\<lambda>op. [8]) (\<lambda>op. 0::nat)
       (Timestamp [] {||} [(OpSHA256, Timestamp [] {||} [])]) = Inl EmptyTimestamp
   \<and> ops (Timestamp [] ({||} :: byte fset) [(OpSHA256, Timestamp [] {||} [])]) \<noteq> []"
  by simp

text \<open>
  C3, amended. \<^verbatim>\<open>serialize\<close> raises exactly when the node or a node below it has no
  attestations and no operations; otherwise, with the \<open>n\<close> attestations sorted and the
  \<open>m\<close> operations sorted by operation, the bytes are \<open>n'\<close> repetitions of \<open>0xff 0x00\<close>
  followed by an attestation (\<open>n' = n\<close> if \<open>m > 0\<close>, else \<open>n - 1\<close>), then \<open>m - 1\<close>
  repetitions of \<open>0xff\<close> followed by an operation and the encoding of its child, then
  the terminal item without a leading \<open>0xff\<close>: the last operation and its child if
  \<open>m > 0\<close>, else \<open>0x00\<close> and the last attestation.
\<close>

theorem serialize_canonical:
  "serialize aser oser okey t =
     (if all_nonempty t then Inr (node_encoding aser oser okey t) else Inl EmptyTimestamp)"
  using serialize_total_aux(1)[of aser oser okey t] encoding_eq_node_encoding[of t aser oser okey]
  by (simp del: serialize.simps)

text \<open>
  C4. The claim: two timestamps that are equal serialize to the same bytes. Equality in
  the code is \<^verbatim>\<open>__eq__\<close>, which does not read the attestations, and the bytes hold
  them: two timestamps over the empty message, one with the attestation \<open>1\<close> and one
  with the attestation \<open>2\<close> (an attestation being written as its one byte), are equal
  for the code and serialize to different bytes.
\<close>

theorem eq_but_different_bytes:
  "timestamp_eq (Timestamp [] {|1::byte|} []) (Timestamp [] {|2|} [])
   \<and> serialize (\<lambda>a::byte. [a]) (\<lambda>op. [8]) (\<lambda>op. 0::nat) (Timestamp [] {|1|} []) = Inr [0, 1]
   \<and> serialize (\<lambda>a::byte. [a]) (\<lambda>op. [8]) (\<lambda>op. 0::nat) (Timestamp [] {|2|} []) = Inr [0, 2]"
  by (simp add: sorted_list_of_fset.rep_eq)

section \<open>Round trip\<close>

lemma update_fresh: "map_of al k = None \<Longrightarrow> AList.update k v al = al @ [(k, v)]"
  by (induction al) (auto split: if_splits)

lemma loop_unfold:
  "deserialize_loop H ad od (Suc n) im self (tag # ctx1) =
     (if tag = 0xff then
        (case ctx1 of
           [] \<Rightarrow> Inl Truncated
         | tag' # ctx2 \<Rightarrow>
             (case do_tag_or_attestation H ad od n im self tag' ctx2 of
                Inl e \<Rightarrow> Inl e
              | Inr (self', ctx3) \<Rightarrow> deserialize_loop H ad od n im self' ctx3))
      else do_tag_or_attestation H ad od n im self tag ctx1)"
  by (simp del: do_tag_or_attestation.simps)

lemma do_tag_att:
  "do_tag_or_attestation H ad od n im self 0 ctx =
     (case ad ctx of
        Inl e \<Rightarrow> Inl e
      | Inr (attestation, ctx') \<Rightarrow>
          Inr (Timestamp (msg self) (finsert attestation (attestations self)) (ops self), ctx'))"
  by simp

lemma do_tag_op:
  "tag \<noteq> 0 \<Longrightarrow> do_tag_or_attestation H ad od n im self tag ctx =
     (case od tag ctx of
        Inl e \<Rightarrow> Inl e
      | Inr (op, ctx') \<Rightarrow>
          (case deserialize H ad od n ctx' (op_call H op im) of
             Inl e \<Rightarrow> Inl e
           | Inr (stamp, ctx'') \<Rightarrow>
               (case OpSet_setitem msg (ops self) op stamp of
                  (ops', Some e) \<Rightarrow> Inl e
                | (ops', None) \<Rightarrow> Inr (Timestamp (msg self) (attestations self) ops', ctx''))))"
  by simp

lemma deserialize_fuel_Suc:
  "(\<forall>ctx m r. deserialize H ad od n ctx m = Inr r \<longrightarrow> deserialize H ad od (Suc n) ctx m = Inr r)
   \<and> (\<forall>im self ctx r. deserialize_loop H ad od n im self ctx = Inr r
         \<longrightarrow> deserialize_loop H ad od (Suc n) im self ctx = Inr r)
   \<and> (\<forall>im self tag ctx r. do_tag_or_attestation H ad od n im self tag ctx = Inr r
         \<longrightarrow> do_tag_or_attestation H ad od (Suc n) im self tag ctx = Inr r)"
proof (induction n)
  case 0
  have "do_tag_or_attestation H ad od 0 im self tag ctx = Inr r
         \<Longrightarrow> do_tag_or_attestation H ad od (Suc 0) im self tag ctx = Inr r" for im self tag ctx r
    by (cases "tag = 0") (auto simp: do_tag_att do_tag_op split: sum.splits
          simp del: do_tag_or_attestation.simps)
  then show ?case by (simp del: do_tag_or_attestation.simps)
next
  case (Suc n)
  then have IHL: "\<And>im self ctx r. deserialize_loop H ad od n im self ctx = Inr r
         \<Longrightarrow> deserialize_loop H ad od (Suc n) im self ctx = Inr r"
    and IHT: "\<And>im self tag ctx r. do_tag_or_attestation H ad od n im self tag ctx = Inr r
         \<Longrightarrow> do_tag_or_attestation H ad od (Suc n) im self tag ctx = Inr r"
    by blast+
  have D: "deserialize H ad od (Suc (Suc n)) ctx m = Inr r"
    if "deserialize H ad od (Suc n) ctx m = Inr r" for ctx m r
    using that IHL[of m "new_timestamp m" ctx r] by (simp only: deserialize.simps(2))
  have T: "do_tag_or_attestation H ad od (Suc (Suc n)) im self tag ctx = Inr r"
    if t: "do_tag_or_attestation H ad od (Suc n) im self tag ctx = Inr r" for im self tag ctx r
  proof (cases "tag = 0")
    case True
    then show ?thesis using t by (simp only: do_tag_att)
  next
    case False
    from t obtain op ctx' where o: "od tag ctx = Inr (op, ctx')"
      unfolding do_tag_op[OF False] by (auto split: sum.splits)
    from t o obtain stamp ctx'' where
      d: "deserialize H ad od (Suc n) ctx' (op_call H op im) = Inr (stamp, ctx'')"
      unfolding do_tag_op[OF False] by (auto split: sum.splits simp del: deserialize.simps)
    have d': "deserialize H ad od (Suc (Suc n)) ctx' (op_call H op im) = Inr (stamp, ctx'')"
      using D[OF d] .
    from t have "(case OpSet_setitem msg (ops self) op stamp of
                    (ops', Some e) \<Rightarrow> Inl e
                  | (ops', None) \<Rightarrow> Inr (Timestamp (msg self) (attestations self) ops', ctx'')) = Inr r"
      by (simp only: do_tag_op[OF False] o d sum.case prod.case)
    then show ?thesis
      by (simp only: do_tag_op[OF False] o d' sum.case prod.case)
  qed
  have L: "deserialize_loop H ad od (Suc (Suc n)) im self ctx = Inr r"
    if l: "deserialize_loop H ad od (Suc n) im self ctx = Inr r" for im self ctx r
  proof (cases ctx)
    case Nil
    then show ?thesis using l by simp
  next
    case (Cons tag ctx1)
    show ?thesis
    proof (cases "tag = 0xff")
      case False
      then have "do_tag_or_attestation H ad od n im self tag ctx1 = Inr r"
        using l unfolding Cons loop_unfold by simp
      then have "do_tag_or_attestation H ad od (Suc n) im self tag ctx1 = Inr r"
        by (rule IHT)
      then show ?thesis unfolding Cons loop_unfold using False by simp
    next
      case True
      show ?thesis
      proof (cases ctx1)
        case Nil
        then show ?thesis using l True unfolding Cons loop_unfold by simp
      next
        case c2: (Cons tag' ctx2)
        from l True obtain self' ctx3 where
          t: "do_tag_or_attestation H ad od n im self tag' ctx2 = Inr (self', ctx3)" and
          l': "deserialize_loop H ad od n im self' ctx3 = Inr r"
          unfolding Cons c2 loop_unfold
          by (auto split: sum.splits simp del: do_tag_or_attestation.simps)
        have t': "do_tag_or_attestation H ad od (Suc n) im self tag' ctx2 = Inr (self', ctx3)"
          using t by (rule IHT)
        have l'': "deserialize_loop H ad od (Suc n) im self' ctx3 = Inr r"
          using l' by (rule IHL)
        show ?thesis
          by (simp only: Cons c2 loop_unfold True list.case t' sum.case prod.case l'') simp
      qed
    qed
  qed
  show ?case using D T L by blast
qed

lemma deserialize_Suc:
  "deserialize H ad od n ctx m = Inr r \<Longrightarrow> deserialize H ad od (Suc n) ctx m = Inr r"
  using deserialize_fuel_Suc[of H ad od n] by blast

lemma deserialize_loop_Suc:
  "deserialize_loop H ad od n im self ctx = Inr r
    \<Longrightarrow> deserialize_loop H ad od (Suc n) im self ctx = Inr r"
  using deserialize_fuel_Suc[of H ad od n] by blast

lemma deserialize_fuel_mono:
  assumes "deserialize H ad od n ctx m = Inr r" and "n \<le> n'"
  shows "deserialize H ad od n' ctx m = Inr r"
proof -
  have "deserialize H ad od (n + k) ctx m = Inr r" for k
  proof (induction k)
    case 0
    show ?case using assms(1) by (simp only: add_0_right)
  next
    case (Suc k)
    then show ?case by (simp only: add_Suc_right) (rule deserialize_Suc)
  qed
  from this[of "n' - n"] show ?thesis using assms(2) by (simp del: deserialize.simps)
qed

lemma loop_fuel_mono:
  assumes "deserialize_loop H ad od n im self ctx = Inr r" and "n \<le> n'"
  shows "deserialize_loop H ad od n' im self ctx = Inr r"
proof -
  have "deserialize_loop H ad od (n + k) im self ctx = Inr r" for k
  proof (induction k)
    case 0
    show ?case using assms(1) by (simp only: add_0_right)
  next
    case (Suc k)
    then show ?case by (simp only: add_Suc_right) (rule deserialize_loop_Suc)
  qed
  from this[of "n' - n"] show ?thesis using assms(2) by (simp del: deserialize_loop.simps)
qed

lemma equals_canonical: "keys_distinct t \<Longrightarrow> equals (canonical okey t) t"
proof (induction t)
  case (Timestamp m atts os)
  let ?so = "sort_key (\<lambda>item. okey (fst item)) os"
  let ?f = "\<lambda>item. (fst item, canonical okey (snd item))"
  have keys: "fst ` set (map ?f ?so) = fst ` set os" by (simp add: image_image)
  have "case map_of os k of None \<Rightarrow> False | Some v' \<Rightarrow> equals v v'"
    if "(k, v) \<in> set (map ?f ?so)" for k v
  proof -
    from that obtain c where c: "(k, c) \<in> set os" "v = canonical okey c" by auto
    then have "map_of os k = Some c" using Timestamp.prems by simp
    moreover have "keys_distinct c" using Timestamp.prems c by auto
    then have "equals (canonical okey c) c" using Timestamp.IH[of "(k, c)" c] c by simp
    ultimately show ?thesis using c by simp
  qed
  then show ?case using keys by (simp del: set_map) blast
qed

lemma loop_attestations:
  assumes "attestation_codec aser ad"
  shows "deserialize_loop H ad od n im (Timestamp m (atts |\<union>| fset_of_list As) os) rest = Inr r
     \<Longrightarrow> deserialize_loop H ad od (n + length As) im (Timestamp m atts os)
           (concat (map (\<lambda>a. [0xff, 0x00] @ aser a) As) @ rest) = Inr r"
proof (induction As arbitrary: atts)
  case Nil
  then show ?case by simp
next
  case (Cons a As)
  have "deserialize_loop H ad od n im (Timestamp m (finsert a atts |\<union>| fset_of_list As) os) rest = Inr r"
    using Cons.prems by simp
  then have step: "deserialize_loop H ad od (n + length As) im (Timestamp m (finsert a atts) os)
           (concat (map (\<lambda>a. [0xff, 0x00] @ aser a) As) @ rest) = Inr r"
    by (rule Cons.IH)
  have t: "do_tag_or_attestation H ad od (n + length As) im (Timestamp m atts os) 0
             (aser a @ concat (map (\<lambda>a. [0xff, 0x00] @ aser a) As) @ rest)
           = Inr (Timestamp m (finsert a atts) os, concat (map (\<lambda>a. [0xff, 0x00] @ aser a) As) @ rest)"
    using assms by (simp add: do_tag_att attestation_codec_def del: do_tag_or_attestation.simps)
  have "deserialize_loop H ad od (Suc (n + length As)) im (Timestamp m atts os)
           (0xff # 0 # aser a @ concat (map (\<lambda>a. [0xff, 0x00] @ aser a) As) @ rest) = Inr r"
    by (simp only: loop_unfold list.case t sum.case prod.case step) simp
  then show ?case by (simp del: deserialize_loop.simps do_tag_or_attestation.simps)
qed

lemma do_tag_op_item:
  assumes "op_codec oser od" and "map_of os op = None"
    and "deserialize H ad od n (e @ rest) (op_call H op im) = Inr (c', rest)"
  shows "\<exists>tag payload. oser op = tag # payload \<and> tag \<noteq> 0 \<and> tag \<noteq> 0xff \<and>
           do_tag_or_attestation H ad od n im (Timestamp m atts os) tag (payload @ e @ rest)
             = Inr (Timestamp m atts (os @ [(op, c')]), rest)"
proof -
  from assms(1) obtain tag payload where
    tp: "oser op = tag # payload" "tag \<noteq> 0" "tag \<noteq> 0xff"
        "\<And>rest. od tag (payload @ rest) = Inr (op, rest)"
    unfolding op_codec_def by blast
  have s: "OpSet_setitem msg os op c' = (os @ [(op, c')], None)"
    using assms(2) by (simp add: OpSet_setitem_def update_fresh)
  have "do_tag_or_attestation H ad od n im (Timestamp m atts os) tag (payload @ e @ rest)
             = Inr (Timestamp m atts (os @ [(op, c')]), rest)"
    by (simp only: do_tag_op[OF tp(2)] tp(4) sum.case prod.case assms(3) timestamp.sel s option.case)
  then show ?thesis using tp by blast
qed

lemma loop_ops:
  assumes codec: "op_codec oser od"
  shows "\<lbrakk>\<forall>item \<in> set items. \<exists>N. \<forall>n\<ge>N. \<forall>rest.
            deserialize H ad od n (enc (snd item) @ rest) (op_call H (fst item) im)
              = Inr (cf (snd item), rest);
          distinct (map fst items); \<forall>item \<in> set items. map_of os (fst item) = None\<rbrakk>
     \<Longrightarrow> \<exists>K. \<forall>n r rest.
           deserialize_loop H ad od n im
              (Timestamp m atts (os @ map (\<lambda>item. (fst item, cf (snd item))) items)) rest = Inr r
           \<longrightarrow> deserialize_loop H ad od (n + K) im (Timestamp m atts os)
                 (concat (map (\<lambda>(op, child). [0xff] @ oser op @ enc child) items) @ rest) = Inr r"
proof (induction items arbitrary: os)
  case Nil
  have "\<forall>n r rest. deserialize_loop H ad od n im (Timestamp m atts (os @ [])) rest = Inr r
           \<longrightarrow> deserialize_loop H ad od (n + 0) im (Timestamp m atts os) ([] @ rest) = Inr r"
    by (simp del: deserialize_loop.simps)
  then show ?case by (simp del: deserialize_loop.simps) (rule exI[of _ 0], simp del: deserialize_loop.simps)
next
  case (Cons item items)
  obtain op c where item: "item = (op, c)" by (cases item)
  from Cons.prems(1) item have "\<exists>N. \<forall>n\<ge>N. \<forall>rest.
      deserialize H ad od n (enc c @ rest) (op_call H op im) = Inr (cf c, rest)"
    by (simp del: deserialize.simps)
  then obtain N where
    N: "\<And>n rest. n \<ge> N \<Longrightarrow> deserialize H ad od n (enc c @ rest) (op_call H op im) = Inr (cf c, rest)"
    by blast
  have fresh: "map_of os op = None" using Cons.prems(3) item by simp
  let ?os1 = "os @ [(op, cf c)]"
  have "\<forall>item \<in> set items. map_of ?os1 (fst item) = None"
    using Cons.prems(2,3) item by (auto simp: map_of_eq_None_iff image_iff)
  moreover have "\<forall>item \<in> set items. \<exists>N. \<forall>n\<ge>N. \<forall>rest.
            deserialize H ad od n (enc (snd item) @ rest) (op_call H (fst item) im)
              = Inr (cf (snd item), rest)"
    using Cons.prems(1) by (simp del: deserialize.simps)
  moreover have "distinct (map fst items)" using Cons.prems(2) by simp
  ultimately have "\<exists>K. \<forall>n r rest.
           deserialize_loop H ad od n im
              (Timestamp m atts (?os1 @ map (\<lambda>item. (fst item, cf (snd item))) items)) rest = Inr r
           \<longrightarrow> deserialize_loop H ad od (n + K) im (Timestamp m atts ?os1)
                 (concat (map (\<lambda>(op, child). [0xff] @ oser op @ enc child) items) @ rest) = Inr r"
    using Cons.IH[of ?os1] by blast
  then obtain K where
    K: "\<And>n r rest. deserialize_loop H ad od n im
              (Timestamp m atts (?os1 @ map (\<lambda>item. (fst item, cf (snd item))) items)) rest = Inr r
           \<Longrightarrow> deserialize_loop H ad od (n + K) im (Timestamp m atts ?os1)
                 (concat (map (\<lambda>(op, child). [0xff] @ oser op @ enc child) items) @ rest) = Inr r"
    by blast
  have "deserialize_loop H ad od (n + (Suc (K + N))) im (Timestamp m atts os)
                 (concat (map (\<lambda>(op, child). [0xff] @ oser op @ enc child) (item # items)) @ rest) = Inr r"
    if l: "deserialize_loop H ad od n im
              (Timestamp m atts (os @ map (\<lambda>item. (fst item, cf (snd item))) (item # items))) rest = Inr r"
    for n r rest
  proof -
    let ?rest1 = "concat (map (\<lambda>(op, child). [0xff] @ oser op @ enc child) items) @ rest"
    have "deserialize_loop H ad od n im
              (Timestamp m atts (?os1 @ map (\<lambda>item. (fst item, cf (snd item))) items)) rest = Inr r"
      using l item by simp
    then have "deserialize_loop H ad od (n + K) im (Timestamp m atts ?os1) ?rest1 = Inr r"
      by (rule K)
    then have l1: "deserialize_loop H ad od (n + K + N) im (Timestamp m atts ?os1) ?rest1 = Inr r"
      by (rule loop_fuel_mono) simp
    have "deserialize H ad od (n + K + N) (enc c @ ?rest1) (op_call H op im) = Inr (cf c, ?rest1)"
      by (rule N) simp
    from do_tag_op_item[OF codec fresh this, of m atts] obtain tag payload where
      tp: "oser op = tag # payload" "tag \<noteq> 0" "tag \<noteq> 0xff"
      and t: "do_tag_or_attestation H ad od (n + K + N) im (Timestamp m atts os) tag
                (payload @ enc c @ ?rest1) = Inr (Timestamp m atts ?os1, ?rest1)"
      by blast
    have "deserialize_loop H ad od (Suc (n + K + N)) im (Timestamp m atts os)
            (0xff # tag # payload @ enc c @ ?rest1) = Inr r"
      by (simp only: loop_unfold list.case t sum.case prod.case l1) simp
    moreover have "concat (map (\<lambda>(op, child). [0xff] @ oser op @ enc child) (item # items)) @ rest
        = 0xff # tag # payload @ enc c @ ?rest1"
      using item tp(1) by simp
    moreover have "n + Suc (K + N) = Suc (n + K + N)" by simp
    ultimately show ?thesis by (simp only:)
  qed
  then show ?case by blast
qed

lemma distinct_map_insort_key:
  "distinct (map g (insort_key f x xs)) \<longleftrightarrow> g x \<notin> g ` set xs \<and> distinct (map g xs)"
  by (induction xs) (auto simp: set_insort_key)

lemma distinct_map_sort_key: "distinct (map g (sort_key f xs)) \<longleftrightarrow> distinct (map g xs)"
  by (induction xs) (auto simp: distinct_map_insort_key)

lemma node_encoding_no_ops:
  "node_encoding aser oser okey (Timestamp m atts []) =
     concat (map (\<lambda>a. [0xff, 0x00] @ aser a) (butlast (sorted_list_of_fset atts)))
     @ [0x00] @ aser (last (sorted_list_of_fset atts))"
  by (simp add: node_encoding_def Let_def butlast_conv_take)

lemma node_encoding_with_ops:
  "os \<noteq> [] \<Longrightarrow> node_encoding aser oser okey (Timestamp m atts os) =
     concat (map (\<lambda>a. [0xff, 0x00] @ aser a) (sorted_list_of_fset atts))
     @ concat (map (\<lambda>(op, child). [0xff] @ oser op @ encoding aser oser okey child)
                 (butlast (sort_key (\<lambda>item. okey (fst item)) os)))
     @ oser (fst (last (sort_key (\<lambda>item. okey (fst item)) os)))
     @ encoding aser oser okey (snd (last (sort_key (\<lambda>item. okey (fst item)) os)))"
  by (simp add: node_encoding_def Let_def butlast_conv_take sort_key_eq_Nil)

lemma distinct_map_last:
  "xs \<noteq> [] \<Longrightarrow> distinct (map g xs) \<Longrightarrow> g (last xs) \<notin> g ` set (butlast xs)"
  by (cases xs rule: rev_cases) auto

lemma deserialize_encoding:
  assumes ac: "attestation_codec aser ad" and oc: "op_codec oser od"
  shows "\<lbrakk>child_msg_inv H t; keys_distinct t; all_nonempty t\<rbrakk> \<Longrightarrow>
     \<exists>N. \<forall>n\<ge>N. \<forall>rest. deserialize H ad od n (encoding aser oser okey t @ rest) (msg t)
                        = Inr (canonical okey t, rest)"
proof (induction t)
  case (Timestamp m atts os)
  let ?t = "Timestamp m atts os"
  let ?A = "sorted_list_of_fset atts"
  let ?so = "sort_key (\<lambda>item. okey (fst item)) os"
  let ?enc = "encoding aser oser okey"
  let ?cf = "canonical okey"
  let ?fa = "\<lambda>a. [0xff, 0x00] @ aser a"
  have enc_t: "?enc ?t = node_encoding aser oser okey ?t"
    using Timestamp.prems(3) by (rule encoding_eq_node_encoding)
  have child: "\<exists>N. \<forall>n\<ge>N. \<forall>rest. deserialize H ad od n (?enc (snd item) @ rest) (op_call H (fst item) m)
                        = Inr (?cf (snd item), rest)" if "item \<in> set os" for item
  proof -
    obtain op c where item: "item = (op, c)" by (cases item)
    have "child_msg_inv H c" "keys_distinct c" "all_nonempty c" "msg c = op_call H op m"
      using Timestamp.prems that item by auto
    then show ?thesis using Timestamp.IH[of item c] that item by (simp del: deserialize.simps)
  qed
  have "\<exists>N. \<forall>rest. deserialize_loop H ad od N m (new_timestamp m) (?enc ?t @ rest)
                        = Inr (?cf ?t, rest)"
  proof (cases "os = []")
    case True
    then have "atts \<noteq> {||}" using Timestamp.prems(3) by simp
    then have Ane: "?A \<noteq> []" by (simp add: sorted_list_of_fset_eq_Nil)
    have fs: "{||} |\<union>| fset_of_list (butlast ?A) = fset_of_list (butlast ?A)" by simp
    have all: "finsert (last ?A) (fset_of_list (butlast ?A)) = atts"
    proof -
      have "fset_of_list (butlast ?A @ [last ?A]) = atts" using Ane by simp
      then show ?thesis by (simp only: fset_of_list_append fset_of_list_simps) auto
    qed
    have main: "deserialize_loop H ad od (Suc 0 + length (butlast ?A)) m (Timestamp m {||} [])
            (concat (map ?fa (butlast ?A)) @ ([0x00] @ aser (last ?A) @ rest))
          = Inr (?cf ?t, rest)" for rest
    proof (rule loop_attestations[OF ac])
      have "do_tag_or_attestation H ad od 0 m (Timestamp m (fset_of_list (butlast ?A)) []) 0
              (aser (last ?A) @ rest) = Inr (Timestamp m atts [], rest)"
        using ac by (simp add: do_tag_att attestation_codec_def all del: do_tag_or_attestation.simps)
      then show "deserialize_loop H ad od (Suc 0) m
            (Timestamp m ({||} |\<union>| fset_of_list (butlast ?A)) []) ([0x00] @ aser (last ?A) @ rest)
          = Inr (?cf ?t, rest)"
        using True by (simp only: fs append.simps loop_unfold) simp
    qed
    have e: "?enc ?t @ rest
        = concat (map ?fa (butlast ?A)) @ ([0x00] @ aser (last ?A) @ rest)" for rest
      using enc_t unfolding True node_encoding_no_ops by simp
    have "deserialize_loop H ad od (Suc 0 + length (butlast ?A)) m (new_timestamp m)
            (?enc ?t @ rest) = Inr (?cf ?t, rest)" for rest
      unfolding new_timestamp_def e by (rule main)
    then show ?thesis by (intro exI allI)
  next
    case False
    then have sone: "?so \<noteq> []" by (simp add: sort_key_eq_Nil)
    obtain lop lc where lst: "last ?so = (lop, lc)" by (cases "last ?so")
    have d: "distinct (map fst ?so)"
      using Timestamp.prems(2) by (simp add: distinct_map_sort_key)
    have d_bl: "distinct (map fst (butlast ?so))"
      using distinct_butlast[OF d] by (simp add: map_butlast)
    have "fst (last ?so) \<notin> fst ` set (butlast ?so)"
      using sone d by (rule distinct_map_last)
    then have fresh_l: "map_of (butlast ?so) lop = None"
      by (simp add: lst map_of_eq_None_iff)
    have "last ?so \<in> set ?so" using sone by (rule last_in_set)
    then have last_in: "(lop, lc) \<in> set os" by (simp add: lst)
    have bl_in: "item \<in> set os" if "item \<in> set (butlast ?so)" for item
      using in_set_butlastD[OF that] by simp
    from child[OF last_in] obtain Nc where
      Nc: "\<And>n rest. n \<ge> Nc \<Longrightarrow> deserialize H ad od n (?enc lc @ rest) (op_call H lop m) = Inr (?cf lc, rest)"
      by (auto simp del: deserialize.simps)
    have "\<exists>K. \<forall>n r rest.
           deserialize_loop H ad od n m
              (Timestamp m atts ([] @ map (\<lambda>item. (fst item, ?cf (snd item))) (butlast ?so))) rest = Inr r
           \<longrightarrow> deserialize_loop H ad od (n + K) m (Timestamp m atts [])
                 (concat (map (\<lambda>(op, child). [0xff] @ oser op @ ?enc child) (butlast ?so)) @ rest) = Inr r"
    proof (rule loop_ops[OF oc])
      show "\<forall>item \<in> set (butlast ?so). \<exists>N. \<forall>n\<ge>N. \<forall>rest.
            deserialize H ad od n (?enc (snd item) @ rest) (op_call H (fst item) m)
              = Inr (?cf (snd item), rest)"
        using child bl_in by blast
      show "distinct (map fst (butlast ?so))" by (rule d_bl)
      show "\<forall>item \<in> set (butlast ?so). map_of [] (fst item) = None" by simp
    qed
    then obtain K where
      K: "\<And>n r rest. deserialize_loop H ad od n m
              (Timestamp m atts (map (\<lambda>item. (fst item, ?cf (snd item))) (butlast ?so))) rest = Inr r
           \<Longrightarrow> deserialize_loop H ad od (n + K) m (Timestamp m atts [])
                 (concat (map (\<lambda>(op, child). [0xff] @ oser op @ ?enc child) (butlast ?so)) @ rest) = Inr r"
      by (auto simp del: deserialize_loop.simps)
    have cf_t: "?cf ?t = Timestamp m atts
        (map (\<lambda>item. (fst item, ?cf (snd item))) (butlast ?so) @ [(lop, ?cf lc)])"
    proof -
      have "map (\<lambda>item. (fst item, ?cf (snd item))) ?so
          = map (\<lambda>item. (fst item, ?cf (snd item))) (butlast ?so @ [last ?so])"
        by (simp only: append_butlast_last_id[OF sone])
      also have "\<dots> = map (\<lambda>item. (fst item, ?cf (snd item))) (butlast ?so) @ [(lop, ?cf lc)]"
        by (simp add: lst)
      finally show ?thesis by simp
    qed
    have main: "deserialize_loop H ad od (Suc Nc + K + length ?A) m (Timestamp m {||} [])
            (concat (map ?fa ?A)
             @ (concat (map (\<lambda>(op, child). [0xff] @ oser op @ ?enc child) (butlast ?so))
                @ (oser lop @ ?enc lc @ rest)))
          = Inr (?cf ?t, rest)" for rest
    proof (rule loop_attestations[OF ac], simp only: sup_bot_left sorted_list_of_fset_simps, rule K)
      have fr: "map_of (map (\<lambda>item. (fst item, ?cf (snd item))) (butlast ?so)) lop = None"
        using fresh_l by (simp add: map_of_eq_None_iff image_image)
      have "deserialize H ad od Nc (?enc lc @ rest) (op_call H lop m) = Inr (?cf lc, rest)"
        by (rule Nc) simp
      from do_tag_op_item[OF oc fr this, of m atts] obtain tag payload where
        tp: "oser lop = tag # payload" "tag \<noteq> 0" "tag \<noteq> 0xff"
        and t: "do_tag_or_attestation H ad od Nc m
                  (Timestamp m atts (map (\<lambda>item. (fst item, ?cf (snd item))) (butlast ?so))) tag
                  (payload @ ?enc lc @ rest) = Inr (?cf ?t, rest)"
        unfolding cf_t by blast
      show "deserialize_loop H ad od (Suc Nc) m
              (Timestamp m atts (map (\<lambda>item. (fst item, ?cf (snd item))) (butlast ?so)))
              (oser lop @ ?enc lc @ rest) = Inr (?cf ?t, rest)"
        using tp(3) by (simp only: tp(1) append.simps loop_unfold t if_False)
    qed
    have e: "?enc ?t @ rest
        = concat (map ?fa ?A)
             @ (concat (map (\<lambda>(op, child). [0xff] @ oser op @ ?enc child) (butlast ?so))
                @ (oser lop @ ?enc lc @ rest))" for rest
      unfolding enc_t node_encoding_with_ops[OF False] lst by simp
    have "deserialize_loop H ad od (Suc Nc + K + length ?A) m (new_timestamp m)
            (?enc ?t @ rest) = Inr (?cf ?t, rest)" for rest
      unfolding new_timestamp_def e by (rule main)
    then show ?thesis by (intro exI allI)
  qed
  then obtain N where N: "\<And>rest. deserialize_loop H ad od N m (new_timestamp m) (?enc ?t @ rest)
                        = Inr (?cf ?t, rest)"
    by blast
  have "deserialize H ad od n (?enc ?t @ rest) (msg ?t) = Inr (?cf ?t, rest)" if "n \<ge> Suc N" for n rest
  proof -
    have "deserialize H ad od (Suc N) (?enc ?t @ rest) m = Inr (?cf ?t, rest)"
      using N[of rest] by (simp only: deserialize.simps)
    then show ?thesis using that deserialize_fuel_mono by (simp only: timestamp.sel) blast
  qed
  then show ?case by blast
qed

lemma example_attestation_codec: "attestation_codec example_att_serialize example_att_deserialize"
  by (simp add: attestation_codec_def example_att_serialize_def example_att_deserialize_def)

lemma example_read_write:
  "example_read_varbytes (example_write_varbytes x @ rest) = Inr (x, rest)"
proof (induction x)
  case Nil
  then show ?case by (cases rest) simp_all
next
  case (Cons b x)
  then show ?case by simp
qed

lemma example_op_codec: "op_codec example_op_serialize example_op_deserialize_from_tag"
  unfolding op_codec_def
proof
  fix op
  show "\<exists>tag payload. example_op_serialize op = tag # payload \<and> tag \<noteq> 0 \<and> tag \<noteq> 255 \<and>
          (\<forall>rest. example_op_deserialize_from_tag tag (payload @ rest) = Inr (op, rest))"
    by (cases op) (simp_all add: example_op_deserialize_from_tag_def example_read_write)
qed

text \<open>
  C2, as stated, fails: a timestamp over \<open>[1]\<close> whose child under SHA-256 has the
  message \<open>[7]\<close> (stored by \<^verbatim>\<open>ops[op] = child\<close>, which checks nothing when the key is
  new) and one attestation has an attestation or an operation in every node. Its
  bytes are \<open>08 00 01\<close>; they hold no message, and \<^verbatim>\<open>deserialize\<close> computes the
  message of the child from the message of the parent, so the timestamp that comes
  back is not equal to the original.
\<close>

theorem roundtrip_recomputes_child_msg:
  "all_nonempty (Timestamp [1] {||} [(OpSHA256, Timestamp [7] {|1::byte|} [])])
   \<and> serialize example_att_serialize example_op_serialize example_op_key
        (Timestamp [1] {||} [(OpSHA256, Timestamp [7] {|1|} [])]) = Inr [8, 0, 1]
   \<and> deserialize (\<lambda>m. m) example_att_deserialize example_op_deserialize_from_tag 6 [8, 0, 1] [1]
        = Inr (Timestamp [1] {||} [(OpSHA256, Timestamp [1] {|1|} [])], [])
   \<and> \<not> equals (Timestamp [1] {||} [(OpSHA256, Timestamp [1] {|1::byte|} [])])
              (Timestamp [1] {||} [(OpSHA256, Timestamp [7] {|1|} [])])"
proof -
  have fuel: "(6::nat) = Suc (Suc (Suc (Suc (Suc (Suc 0)))))" by simp
  show ?thesis
    by (subst fuel)
       (simp add: sorted_list_of_fset.rep_eq example_op_key_def example_att_serialize_def
          example_att_deserialize_def example_op_deserialize_from_tag_def
          new_timestamp_def OpSet_setitem_def)
qed

text \<open>
  C2, amended. For every timestamp in which the message of every child is the
  operation applied to the message of its parent (and a dict holds each key once), in
  which every node has an attestation or an operation, and for codecs that keep their
  contract: \<^verbatim>\<open>serialize\<close> returns bytes, and \<^verbatim>\<open>deserialize\<close> on these bytes with the
  timestamp's message returns, for every amount of fuel from some bound on, a
  timestamp equal to the original (same message, same attestations, same operation
  maps, recursively) and leaves no input.
\<close>

theorem deserialize_serialize_roundtrip:
  assumes "attestation_codec att_serialize att_deserialize"
    and "op_codec op_serialize op_deserialize_from_tag"
    and "child_msg_inv sha256 t" and "keys_distinct t" and "all_nonempty t"
  shows "\<exists>out. serialize att_serialize op_serialize op_key t = Inr out \<and>
           (\<exists>N. \<forall>n\<ge>N. \<exists>t'.
              deserialize sha256 att_deserialize op_deserialize_from_tag n out (msg t) = Inr (t', [])
              \<and> equals t' t)"
proof -
  have s: "serialize att_serialize op_serialize op_key t
             = Inr (encoding att_serialize op_serialize op_key t)"
    using serialize_total_aux(1)[of att_serialize op_serialize op_key t] assms(5)
    by (simp del: serialize.simps)
  from deserialize_encoding[OF assms(1,2,3,4,5), of op_key] obtain N where
    N: "\<And>n rest. n \<ge> N \<Longrightarrow>
          deserialize sha256 att_deserialize op_deserialize_from_tag n
            (encoding att_serialize op_serialize op_key t @ rest) (msg t)
          = Inr (canonical op_key t, rest)"
    by blast
  have "\<exists>t'. deserialize sha256 att_deserialize op_deserialize_from_tag n
            (encoding att_serialize op_serialize op_key t) (msg t) = Inr (t', [])
          \<and> equals t' t" if "n \<ge> N" for n
    using N[OF that, of "[]"] equals_canonical[OF assms(4), of op_key]
    by (simp del: deserialize.simps)
  then show ?thesis using s by blast
qed

text \<open>The round trip at the example timestamp, the hash being the identity.\<close>

theorem deserialize_serialize_roundtrip_witness:
  "\<exists>out. serialize example_att_serialize example_op_serialize example_op_key example_timestamp
            = Inr out \<and>
         (\<exists>N. \<forall>n\<ge>N. \<exists>t'.
            deserialize (\<lambda>m. m) example_att_deserialize example_op_deserialize_from_tag n out
              (msg example_timestamp) = Inr (t', [])
            \<and> equals t' example_timestamp)"
  by (rule deserialize_serialize_roundtrip[OF example_attestation_codec example_op_codec])
     (simp_all add: example_timestamp_def)

lemma example_timestamp_bytes:
  "serialize example_att_serialize example_op_serialize example_op_key example_timestamp
     = Inr [255, 0, 2, 255, 0, 3, 255, 8, 255, 0, 3, 240, 1, 2, 0, 0, 7, 241, 1, 5, 0, 0, 9]"
  by (simp add: example_timestamp_def sorted_list_of_fset.rep_eq example_op_key_def
        example_att_serialize_def)

section \<open>Merge\<close>


lemma child_msg_inv_new: "child_msg_inv H (new_timestamp m)"
  by (simp add: new_timestamp_def)

lemma set_update_subset: "set (AList.update k v al) \<subseteq> insert (k, v) (set al)"
  by (induction al) auto







lemma merge_example_value:
  "merge (\<lambda>m. m) example_timestamp
            (PyTimestamp (Timestamp [1] {|4|} [(OpSHA256, Timestamp [1] {|5|} [])]))
   = (Timestamp [1] {|3, 2, 4|}
       [(OpPrepend [5], Timestamp [5, 1] {|9|} []),
        (OpSHA256, Timestamp [1] {|3, 5|} [(OpAppend [2], Timestamp [1, 2] {|7|} [])])], None)"
  by (simp add: example_timestamp_def ops_add_def OpSet_add_def make_timestamp_def new_timestamp_def) auto














section \<open>The child-message invariant in the store\<close>

lemma store_ext_refl: "store_inv H h \<Longrightarrow> store_ext H h h"
  by (simp add: store_ext_def)

lemma store_ext_trans: "store_ext H h1 h2 \<Longrightarrow> store_ext H h2 h3 \<Longrightarrow> store_ext H h1 h3"
  by (auto simp: store_ext_def)

lemma store_invD:
  "store_inv H h \<Longrightarrow> a < length h \<Longrightarrow> (k, c) \<in> set (node_ops (h ! a)) \<Longrightarrow>
     c < length h \<and> node_msg (h ! c) = op_call H k (node_msg (h ! a))"
  by (auto simp: store_inv_def)

lemma child_invD:
  "store_inv H h \<Longrightarrow> a < length h \<Longrightarrow> child h a k = Some c \<Longrightarrow>
     c < length h \<and> node_msg (h ! c) = op_call H k (node_msg (h ! a))"
  unfolding child_def by (rule store_invD) (auto dest: map_of_SomeD)

lemma store_new_spec:
  assumes "store_inv H h" and "store_new h m = (h', a)"
  shows "store_ext H h h'" and "a = length h" and "length h' = Suc (length h)"
    and "node_msg (h' ! a) = m" and "node_ops (h' ! a) = []"
    and "\<And>b. b < length h \<Longrightarrow> h' ! b = h ! b"
proof -
  have h': "h' = h @ [\<lparr>node_msg = m, node_attestations = {||}, node_ops = []\<rparr>]" and a: "a = length h"
    using assms(2) by (auto simp: store_new_def)
  show "a = length h" by (rule a)
  show "length h' = Suc (length h)" by (simp add: h')
  show "node_msg (h' ! a) = m" "node_ops (h' ! a) = []" by (simp_all add: h' a)
  show nth: "\<And>b. b < length h \<Longrightarrow> h' ! b = h ! b" by (simp add: h' nth_append)
  have "store_inv H h'"
    unfolding store_inv_def
  proof (intro allI impI)
    fix b assume b: "b < length h'"
    show "\<forall>(op, c) \<in> set (node_ops (h' ! b)).
            c < length h' \<and> node_msg (h' ! c) = op_call H op (node_msg (h' ! b))"
    proof (cases "b < length h")
      case True
      then show ?thesis using store_invD[OF assms(1) True] by (auto simp: h' nth_append)
    next
      case False
      then have "b = length h" using b by (simp add: h')
      then show ?thesis by (simp add: h')
    qed
  qed
  then show "store_ext H h h'" by (simp add: store_ext_def h' nth_append)
qed

lemma store_inv_update_ops:
  assumes inv: "store_inv H h" and a: "a < length h"
    and sub: "set ops' \<subseteq> insert (k, v) (set (node_ops (h ! a)))"
    and v: "v < length h" "node_msg (h ! v) = op_call H k (node_msg (h ! a))"
  shows "store_inv H (h[a := (h ! a)\<lparr>node_ops := ops'\<rparr>])"
  unfolding store_inv_def
proof (intro allI impI)
  let ?h' = "h[a := (h ! a)\<lparr>node_ops := ops'\<rparr>]"
  have msg: "node_msg (?h' ! b) = node_msg (h ! b)" if "b < length h" for b
    using that by (cases "b = a") simp_all
  fix b assume "b < length ?h'"
  then have b: "b < length h" by simp
  show "\<forall>(op, c) \<in> set (node_ops (?h' ! b)).
          c < length ?h' \<and> node_msg (?h' ! c) = op_call H op (node_msg (?h' ! b))"
  proof (clarify)
    fix op c assume oc: "(op, c) \<in> set (node_ops (?h' ! b))"
    have "c < length h \<and> node_msg (h ! c) = op_call H op (node_msg (h ! b))"
    proof (cases "b = a")
      case True
      then have "(op, c) \<in> insert (k, v) (set (node_ops (h ! a)))" using oc a sub by auto
      then show ?thesis using v store_invD[OF inv a] True by auto
    next
      case False
      then show ?thesis using oc store_invD[OF inv b] by simp
    qed
    then show "c < length ?h' \<and> node_msg (?h' ! c) = op_call H op (node_msg (?h' ! b))"
      using msg b by simp
  qed
qed

lemma store_attest_spec:
  assumes "store_inv H h" and "a < length h"
  shows "store_ext H h (store_attest h a x)" and "length (store_attest h a x) = length h"
proof -
  let ?h' = "store_attest h a x"
  have ops: "node_ops (?h' ! b) = node_ops (h ! b)" and msg: "node_msg (?h' ! b) = node_msg (h ! b)"
    if "b < length h" for b
    using that by (cases "b = a"; simp add: store_attest_def)+
  show len: "length ?h' = length h" by (simp add: store_attest_def)
  have "store_inv H ?h'"
    unfolding store_inv_def using store_invD[OF assms(1)] ops msg len by auto
  then show "store_ext H h ?h'" using msg len by (simp add: store_ext_def)
qed

lemma store_setitem_spec:
  assumes inv: "store_inv H h" and a: "a < length h" and v: "v < length h"
    and m: "node_msg (h ! v) = op_call H k (node_msg (h ! a))"
    and r: "store_setitem h a k v = (h', err)"
  shows "store_ext H h h'" and "length h' = length h" and "err = None"
    and "child h' a k = Some v"
    and "\<And>b k'. b \<noteq> a \<or> k' \<noteq> k \<Longrightarrow> child h' b k' = child h b k'"
proof -
  have ex: "node_msg (h ! e) = node_msg (h ! v)" if "map_of (node_ops (h ! a)) k = Some e" for e
    using child_invD[OF inv a, of k e] that m by (simp add: child_def)
  have s: "OpSet_setitem (\<lambda>r. node_msg (h ! r)) (node_ops (h ! a)) k v
             = (AList.update k v (node_ops (h ! a)), None)"
    using ex by (auto simp: OpSet_setitem_def split: option.splits)
  have h': "h' = h[a := (h ! a)\<lparr>node_ops := AList.update k v (node_ops (h ! a))\<rparr>]"
    and e: "err = None"
    using r by (simp_all add: store_setitem_def s)
  show "err = None" by (rule e)
  show len: "length h' = length h" by (simp add: h')
  have i': "store_inv H h'"
    unfolding h' using inv a set_update_subset v m by (rule store_inv_update_ops)
  have msg: "node_msg (h' ! b) = node_msg (h ! b)" if "b < length h" for b
    using that by (cases "b = a") (simp_all add: h')
  show "store_ext H h h'" using i' len msg by (simp add: store_ext_def)
  show "child h' a k = Some v" using a by (simp add: child_def h' update_conv')
  show "child h' b k' = child h b k'" if "b \<noteq> a \<or> k' \<noteq> k" for b k'
  proof (cases "b = a")
    case True
    then show ?thesis using that a by (simp add: child_def h' update_conv')
  next
    case False
    then show ?thesis by (simp add: child_def h')
  qed
qed

lemma store_add_spec:
  assumes inv: "store_inv H h" and a: "a < length h" and r: "store_add H h a k = (h', v)"
  shows "store_ext H h h'" and "v < length h'"
    and "node_msg (h' ! v) = op_call H k (node_msg (h ! a))"
    and "child h' a k = Some v"
    and "\<And>b k'. b < length h \<Longrightarrow> b \<noteq> a \<or> k' \<noteq> k \<Longrightarrow> child h' b k' = child h b k'"
proof -
  have "store_ext H h h' \<and> v < length h' \<and> node_msg (h' ! v) = op_call H k (node_msg (h ! a))
     \<and> child h' a k = Some v
     \<and> (\<forall>b k'. b < length h \<longrightarrow> b \<noteq> a \<or> k' \<noteq> k \<longrightarrow> child h' b k' = child h b k')"
  proof (cases "map_of (node_ops (h ! a)) k")
    case (Some c)
    then have "h' = h" "v = c" using r by (simp_all add: store_add_def)
    then show ?thesis
      using child_invD[OF inv a, of k c] Some store_ext_refl[OF inv] by (simp add: child_def)
  next
    case None
    obtain h1 n where n: "store_new h (op_call H k (node_msg (h ! a))) = (h1, n)"
      by (cases "store_new h (op_call H k (node_msg (h ! a)))")
    note sn = store_new_spec[OF inv n]
    have h': "h' = h1[a := (h1 ! a)\<lparr>node_ops := AList.update k n (node_ops (h1 ! a))\<rparr>]"
      and vn: "v = n"
      using r None n by (auto simp: store_add_def)
    have i1: "store_inv H h1" and a1: "a < length h1" and n1: "n < length h1"
      using sn a by (simp_all add: store_ext_def)
    have na: "n \<noteq> a" using sn(2) a by simp
    have m1: "node_msg (h1 ! n) = op_call H k (node_msg (h1 ! a))" using sn(4) sn(6)[of a] a by simp
    have i': "store_inv H h'"
      unfolding h' using i1 a1 set_update_subset n1 m1 by (rule store_inv_update_ops)
    have msg: "node_msg (h' ! b) = node_msg (h1 ! b)" if "b < length h1" for b
      using that by (cases "b = a") (simp_all add: h')
    have "store_ext H h1 h'" using i' msg by (simp add: store_ext_def h')
    then have e: "store_ext H h h'" using sn(1) store_ext_trans by blast
    have "node_msg (h' ! v) = op_call H k (node_msg (h ! a))"
      using msg[OF n1] sn(4) vn by simp
    moreover have "child h' a k = Some v" using a1 vn by (simp add: child_def h' update_conv')
    moreover have "child h' b k' = child h b k'" if "b < length h" "b \<noteq> a \<or> k' \<noteq> k" for b k'
    proof (cases "b = a")
      case True
      then show ?thesis using that a1 sn(6)[of a] a by (simp add: child_def h' update_conv')
    next
      case False
      then show ?thesis using that sn(6)[of b] by (simp add: child_def h')
    qed
    moreover have "v < length h'" using n1 vn by (simp add: h')
    ultimately show ?thesis using e by blast
  qed
  then show "store_ext H h h'" "v < length h'"
    "node_msg (h' ! v) = op_call H k (node_msg (h ! a))" "child h' a k = Some v"
    "\<And>b k'. b < length h \<Longrightarrow> b \<noteq> a \<or> k' \<noteq> k \<Longrightarrow> child h' b k' = child h b k'"
    by blast+
qed

lemma store_extD:
  assumes "store_ext H h h'"
  shows "store_inv H h'" and "length h \<le> length h'"
    and "\<And>a. a < length h \<Longrightarrow> node_msg (h' ! a) = node_msg (h ! a)"
    and "\<And>a. a < length h \<Longrightarrow> a < length h'"
  using assms by (auto simp: store_ext_def)

lemma valid_ref_ext: "store_ext H h h' \<Longrightarrow> valid_ref h v \<Longrightarrow> valid_ref h' v"
  by (auto simp: valid_ref_def store_ext_def split: pyval.splits)

lemma msg_of_ext: "store_ext H h h' \<Longrightarrow> valid_ref h v \<Longrightarrow> msg_of h' v = msg_of h v"
  by (auto simp: valid_ref_def msg_of_def store_ext_def split: pyval.splits)

lemma as_timestamp_spec:
  assumes inv: "store_inv H h" and v: "valid_ref h v" and r: "as_timestamp h v = (h', a)"
  shows "store_ext H h h'" and "a < length h'" and "node_msg (h' ! a) = msg_of h v"
proof -
  have "store_ext H h h' \<and> a < length h' \<and> node_msg (h' ! a) = msg_of h v"
  proof (cases v)
    case (Ref x)
    then have "h' = h" "a = x" using r by (simp_all add: as_timestamp_def)
    then show ?thesis
      using inv v Ref by (simp add: store_ext_refl valid_ref_def msg_of_def)
  next
    case (Bytes b)
    then have n: "store_new h b = (h', a)" using r by (simp add: as_timestamp_def)
    note sn = store_new_spec[OF inv n]
    show ?thesis using sn(1,2,3,4) Bytes by (simp add: msg_of_def)
  qed
  then show "store_ext H h h'" "a < length h'" "node_msg (h' ! a) = msg_of h v" by simp_all
qed

lemma cat_core:
  assumes inv: "store_inv H h2" and l: "l < length h2" and r: "r < length h2"
    and s3: "store_add H h2 l (OpAppend (node_msg (h2 ! r))) = (h3, las)"
    and s4: "store_add H h3 r (OpPrepend (node_msg (h3 ! l))) = (h4, rps)"
    and s5: "store_setitem h4 l (OpAppend (node_msg (h4 ! r))) rps = (h5, err)"
    and s6: "store_add H h5 rps u = (h6, ret)"
  shows "err = None" and "store_ext H h2 h5" and "store_ext H h5 h6"
    and "rps < length h5" and "node_msg (h5 ! rps) = node_msg (h2 ! l) @ node_msg (h2 ! r)"
    and "child h5 l (OpAppend (node_msg (h2 ! r))) = Some rps"
    and "child h5 r (OpPrepend (node_msg (h2 ! l))) = Some rps"
    and "ret < length h6"
    and "node_msg (h6 ! ret) = op_call H u (node_msg (h2 ! l) @ node_msg (h2 ! r))"
    and "child h6 rps u = Some ret"
    and "\<And>b k'. b < length h5 \<Longrightarrow> b \<noteq> rps \<or> k' \<noteq> u \<Longrightarrow> child h6 b k' = child h5 b k'"
proof -
  let ?ml = "node_msg (h2 ! l)" and ?mr = "node_msg (h2 ! r)"
  note a3 = store_add_spec[OF inv l s3]
  note e3 = store_extD[OF a3(1)]
  have l3: "l < length h3" and r3: "r < length h3" using e3(4) l r by simp_all
  have ml3: "node_msg (h3 ! l) = ?ml" and mr3: "node_msg (h3 ! r) = ?mr"
    using e3(3) l r by simp_all
  note a4 = store_add_spec[OF e3(1) r3 s4]
  note e4 = store_extD[OF a4(1)]
  have l4: "l < length h4" and r4: "r < length h4" using e4(4) l3 r3 by simp_all
  have ml4: "node_msg (h4 ! l) = ?ml" and mr4: "node_msg (h4 ! r) = ?mr"
    using e4(3) l3 r3 ml3 mr3 by simp_all
  have rps4: "rps < length h4" by (rule a4(2))
  have mrps4: "node_msg (h4 ! rps) = ?ml @ ?mr" using a4(3) ml3 mr3 by simp
  have pre: "node_msg (h4 ! rps) = op_call H (OpAppend (node_msg (h4 ! r))) (node_msg (h4 ! l))"
    using mrps4 ml4 mr4 by simp
  note a5 = store_setitem_spec[OF e4(1) l4 rps4 pre s5]
  note e5 = store_extD[OF a5(1)]
  show "err = None" by (rule a5(3))
  show x25: "store_ext H h2 h5"
    using a3(1) a4(1) a5(1) store_ext_trans by blast
  show rps5: "rps < length h5" using rps4 a5(2) by simp
  show "node_msg (h5 ! rps) = ?ml @ ?mr" using e5(3)[OF rps4] mrps4 by simp
  show "child h5 l (OpAppend ?mr) = Some rps" using a5(4) mr4 by simp
  have "child h5 r (OpPrepend ?ml) = child h4 r (OpPrepend ?ml)"
    by (rule a5(5)) simp
  then show "child h5 r (OpPrepend ?ml) = Some rps" using a4(4) ml3 by simp
  note a6 = store_add_spec[OF e5(1) rps5 s6]
  show "store_ext H h5 h6" by (rule a6(1))
  show "ret < length h6" by (rule a6(2))
  show "node_msg (h6 ! ret) = op_call H u (?ml @ ?mr)"
    using a6(3) e5(3)[OF rps4] mrps4 by simp
  show "child h6 rps u = Some ret" by (rule a6(4))
  show "\<And>b k'. b < length h5 \<Longrightarrow> b \<noteq> rps \<or> k' \<noteq> u \<Longrightarrow> child h6 b k' = child h5 b k'"
    by (rule a6(5))
qed

lemma cat_then_unary_op_unfold:
  assumes "as_timestamp h left = (h1, l)" and "as_timestamp h1 right = (h2, r)"
    and "store_add H h2 l (OpAppend (node_msg (h2 ! r))) = (h3, las)"
    and "store_add H h3 r (OpPrepend (node_msg (h3 ! l))) = (h4, rps)"
    and "store_setitem h4 l (OpAppend (node_msg (h4 ! r))) rps = (h5, None)"
    and "store_add H h5 rps u = (h6, ret)"
  shows "cat_then_unary_op H u h left right = (h6, Inr ret)"
  using assms by (simp add: cat_then_unary_op_def)

lemma cat_then_unary_op_spec:
  assumes inv: "store_inv H h" and vl: "valid_ref h left" and vr: "valid_ref h right"
  shows "\<exists>h' ret. cat_then_unary_op H u h left right = (h', Inr ret) \<and> store_ext H h h'
           \<and> ret < length h'
           \<and> node_msg (h' ! ret) = op_call H u (msg_of h left @ msg_of h right)"
proof -
  obtain h1 l where t1: "as_timestamp h left = (h1, l)" by (cases "as_timestamp h left")
  note p1 = as_timestamp_spec[OF inv vl t1]
  note e1 = store_extD[OF p1(1)]
  obtain h2 r where t2: "as_timestamp h1 right = (h2, r)" by (cases "as_timestamp h1 right")
  note p2 = as_timestamp_spec[OF e1(1) valid_ref_ext[OF p1(1) vr] t2]
  note e2 = store_extD[OF p2(1)]
  have l2: "l < length h2" using e2(4) p1(2) by simp
  have ml: "node_msg (h2 ! l) = msg_of h left" using e2(3)[OF p1(2)] p1(3) by simp
  have mr: "node_msg (h2 ! r) = msg_of h right" using p2(3) msg_of_ext[OF p1(1) vr] by simp
  obtain h3 las where s3: "store_add H h2 l (OpAppend (node_msg (h2 ! r))) = (h3, las)"
    by (cases "store_add H h2 l (OpAppend (node_msg (h2 ! r)))")
  obtain h4 rps where s4: "store_add H h3 r (OpPrepend (node_msg (h3 ! l))) = (h4, rps)"
    by (cases "store_add H h3 r (OpPrepend (node_msg (h3 ! l)))")
  obtain h5 err where s5: "store_setitem h4 l (OpAppend (node_msg (h4 ! r))) rps = (h5, err)"
    by (cases "store_setitem h4 l (OpAppend (node_msg (h4 ! r))) rps")
  obtain h6 ret where s6: "store_add H h5 rps u = (h6, ret)" by (cases "store_add H h5 rps u")
  note c = cat_core[OF e2(1) l2 p2(2) s3 s4 s5 s6]
  have "cat_then_unary_op H u h left right = (h6, Inr ret)"
    using t1 t2 s3 s4 s5[unfolded c(1)] s6 by (rule cat_then_unary_op_unfold)
  moreover have "store_ext H h h6"
    using p1(1) p2(1) c(2) c(3) store_ext_trans by blast
  ultimately show ?thesis using c(8,9) ml mr by simp
qed

lemma cat_sha256_spec:
  assumes "store_inv H h" and "valid_ref h left" and "valid_ref h right"
  shows "\<exists>h' ret. cat_sha256 H h left right = (h', Inr ret) \<and> store_ext H h h'
           \<and> ret < length h' \<and> node_msg (h' ! ret) = H (msg_of h left @ msg_of h right)"
  using cat_then_unary_op_spec[OF assms, of OpSHA256] by (simp add: cat_sha256_def)

lemma merkle_pairs_spec:
  "store_inv H h \<Longrightarrow> (\<forall>p. prev_stamp = Some p \<longrightarrow> valid_ref h p) \<Longrightarrow>
   \<forall>s \<in> set stamps. valid_ref h s \<Longrightarrow> \<forall>s \<in> set next_stamps. valid_ref h s \<Longrightarrow>
     \<exists>h' next_stamps' prev_stamp'.
        merkle_pairs H h prev_stamp stamps next_stamps = (h', Inr (next_stamps', prev_stamp'))
        \<and> store_ext H h h' \<and> (\<forall>p. prev_stamp' = Some p \<longrightarrow> valid_ref h' p)
        \<and> (\<forall>s \<in> set next_stamps'. valid_ref h' s)"
proof (induction H h prev_stamp stamps next_stamps rule: merkle_pairs.induct)
  case (1 sha256 h prev_stamp next_stamps)
  then show ?case by (simp add: store_ext_refl)
next
  case (2 sha256 h prev_stamp stamp stamps next_stamps)
  show ?case
  proof (cases prev_stamp)
    case None
    have "\<exists>h' next_stamps' prev_stamp'.
        merkle_pairs sha256 h (Some stamp) stamps next_stamps = (h', Inr (next_stamps', prev_stamp'))
        \<and> store_ext sha256 h h' \<and> (\<forall>p. prev_stamp' = Some p \<longrightarrow> valid_ref h' p)
        \<and> (\<forall>s \<in> set next_stamps'. valid_ref h' s)"
      using "2.IH"(1)[OF None] "2.prems" by simp
    then show ?thesis using None by simp
  next
    case (Some prev)
    have vp: "valid_ref h prev" and vs: "valid_ref h stamp" using "2.prems" Some by simp_all
    from cat_sha256_spec[OF "2.prems"(1) vp vs] obtain h1 r where
      c: "cat_sha256 sha256 h prev stamp = (h1, Inr r)" and e: "store_ext sha256 h h1"
      and r: "r < length h1"
      by blast
    have "\<exists>h' next_stamps' prev_stamp'.
        merkle_pairs sha256 h1 None stamps (next_stamps @ [Ref r]) = (h', Inr (next_stamps', prev_stamp'))
        \<and> store_ext sha256 h1 h' \<and> (\<forall>p. prev_stamp' = Some p \<longrightarrow> valid_ref h' p)
        \<and> (\<forall>s \<in> set next_stamps'. valid_ref h' s)"
    proof (rule "2.IH"(2)[OF Some _ refl])
      show "(h1, Inr r) = cat_sha256 sha256 h prev stamp" using c by simp
      show "store_inv sha256 h1" using e by (simp add: store_ext_def)
      show "\<forall>p. None = Some p \<longrightarrow> valid_ref h1 p" by simp
      show "\<forall>s\<in>set stamps. valid_ref h1 s" using "2.prems"(3) valid_ref_ext[OF e] by simp
      show "\<forall>s\<in>set (next_stamps @ [Ref r]). valid_ref h1 s"
        using "2.prems"(4) valid_ref_ext[OF e] r by (auto simp: valid_ref_def)
    qed
    then show ?thesis using Some c e store_ext_trans by (auto simp del: merkle_pairs.simps(2)
          simp add: merkle_pairs.simps(2)[of _ _ _ stamp])
  qed
qed

lemma make_merkle_tree_spec:
  "store_inv H h \<Longrightarrow> \<forall>s \<in> set stamps. valid_ref h s \<Longrightarrow>
     store_ext H h (fst (make_merkle_tree H h stamps))"
proof (induction H h stamps rule: make_merkle_tree.induct)
  case (1 sha256 h stamps)
  show ?case
  proof (cases stamps)
    case Nil
    then show ?thesis using "1.prems" by (subst make_merkle_tree.simps) (simp add: store_ext_refl)
  next
    case (Cons prev_stamp rest)
    from merkle_pairs_spec[of sha256 h "Some prev_stamp" rest "[]"] "1.prems" Cons
    obtain h' next_stamps prev_stamp' where
      m: "merkle_pairs sha256 h (Some prev_stamp) rest [] = (h', Inr (next_stamps, prev_stamp'))"
      and e: "store_ext sha256 h h'" and vp: "\<forall>p. prev_stamp' = Some p \<longrightarrow> valid_ref h' p"
      and vn: "\<forall>s \<in> set next_stamps. valid_ref h' s"
      by auto
    show ?thesis
    proof (cases "next_stamps = []")
      case True
      then show ?thesis using Cons m e by (subst make_merkle_tree.simps) simp
    next
      case False
      let ?next = "next_stamps @ (case prev_stamp' of None \<Rightarrow> [] | Some p \<Rightarrow> [p])"
      have v: "\<forall>s \<in> set ?next. valid_ref h' s" using vp vn by (auto split: option.splits)
      have "store_ext sha256 h' (fst (make_merkle_tree sha256 h' ?next))"
        using "1.IH"[OF Cons m[symmetric] refl refl False] e v
        by (simp add: store_ext_def)
      moreover have "make_merkle_tree sha256 h stamps = make_merkle_tree sha256 h' ?next"
        using Cons m False by (subst make_merkle_tree.simps) simp
      ultimately show ?thesis using e store_ext_trans by auto
    qed
  qed
qed

lemma store_attestations_update_spec:
  assumes "store_inv H h" and "a < length h"
  shows "store_ext H h (h[a := (h ! a)\<lparr>node_attestations := A\<rparr>])"
proof -
  let ?h' = "h[a := (h ! a)\<lparr>node_attestations := A\<rparr>]"
  have ops: "node_ops (?h' ! b) = node_ops (h ! b)" and msg: "node_msg (?h' ! b) = node_msg (h ! b)"
    if "b < length h" for b
    using that by (cases "b = a"; simp)+
  have len: "length ?h' = length h" by simp
  have "store_inv H ?h'"
    unfolding store_inv_def using store_invD[OF assms(1)] ops msg len by auto
  then show ?thesis using msg len by (simp add: store_ext_def)
qed

lemma store_merge_spec:
  "store_inv H h \<Longrightarrow> self < length h \<Longrightarrow> valid_ref h other \<Longrightarrow>
     store_ext H h (fst (store_merge H n h self other))"
  and store_merge_items_spec:
  "store_inv H h \<Longrightarrow> self < length h \<Longrightarrow> other' < length h \<Longrightarrow>
     store_ext H h (fst (store_merge_items H n h self other' used i))"
proof (induction H n h self other and H n h self other' used i
    rule: store_merge_store_merge_items.induct)
  case (1 sha256 h self other)
  then show ?case by (simp add: store_ext_refl)
next
  case (2 sha256 n h self other)
  show ?case
  proof (cases other)
    case (Bytes b)
    then show ?thesis using "2.prems" by (simp add: store_ext_refl)
  next
    case (Ref o')
    show ?thesis
    proof (cases "node_msg (h ! self) \<noteq> node_msg (h ! o')")
      case True
      then show ?thesis using Ref "2.prems" by (simp add: store_ext_refl)
    next
      case False
      let ?h1 = "h[self := (h ! self)\<lparr>node_attestations :=
                     node_attestations (h ! self) |\<union>| node_attestations (h ! o')\<rparr>]"
      have e1: "store_ext sha256 h ?h1"
        using "2.prems"(1,2) by (rule store_attestations_update_spec)
      have o: "o' < length h" using "2.prems"(3) Ref by (simp add: valid_ref_def)
      have "store_ext sha256 ?h1
              (fst (store_merge_items sha256 n ?h1 self o' (length (node_ops (?h1 ! o'))) 0))"
        using "2.IH"[OF Ref False refl] store_extD(1)[OF e1] "2.prems"(2) o by simp
      moreover have "store_merge sha256 (Suc n) h self other
           = store_merge_items sha256 n ?h1 self o' (length (node_ops (?h1 ! o'))) 0"
        using Ref False by (simp add: Let_def)
      ultimately show ?thesis using e1 store_ext_trans by metis
    qed
  qed
next
  case (3 sha256 h self other' used i)
  then show ?case by (simp add: store_ext_refl)
next
  case (4 sha256 n h self other' used i)
  show ?case
  proof (cases "length (node_ops (h ! other')) \<noteq> used")
    case True
    then show ?thesis using "4.prems" by (simp add: store_ext_refl)
  next
    case len: False
    show ?thesis
    proof (cases "used \<le> i")
      case True
      then show ?thesis using "4.prems" len by (simp add: store_ext_refl)
    next
      case nle: False
      obtain k c where kc: "node_ops (h ! other') ! i = (k, c)"
        by (cases "node_ops (h ! other') ! i")
      have "(k, c) \<in> set (node_ops (h ! other'))"
        using len nle kc nth_mem[of i "node_ops (h ! other')"] by simp
      then have c: "c < length h" using store_invD[OF "4.prems"(1,3)] by blast
      obtain h1 our where sa: "store_add sha256 h self k = (h1, our)"
        by (cases "store_add sha256 h self k")
      note a = store_add_spec[OF "4.prems"(1,2) sa]
      note e1 = store_extD[OF a(1)]
      obtain h2 err where sm: "store_merge sha256 n h1 our (Ref c) = (h2, err)"
        by (cases "store_merge sha256 n h1 our (Ref c)")
      have "store_ext sha256 h1 (fst (store_merge sha256 n h1 our (Ref c)))"
        using "4.IH"(1)[OF len nle refl kc[symmetric] refl sa[symmetric]] e1(1) a(2) e1(4)[OF c]
        by (simp add: valid_ref_def)
      then have e2: "store_ext sha256 h1 h2" using sm by simp
      then have e02: "store_ext sha256 h h2" using a(1) store_ext_trans by blast
      show ?thesis
      proof (cases err)
        case (Some e)
        then have "store_merge_items sha256 (Suc n) h self other' used i = (h2, Some e)"
          using len nle kc sa sm by simp
        then show ?thesis using e02 by simp
      next
        case None
        note x2 = store_extD[OF e02]
        have "store_ext sha256 h2 (fst (store_merge_items sha256 n h2 self other' used (Suc i)))"
          using "4.IH"(2)[OF len nle refl kc[symmetric] refl sa[symmetric] refl sm[symmetric] None]
            x2(1) x2(4)[OF "4.prems"(2)] x2(4)[OF "4.prems"(3)] by simp
        moreover have "store_merge_items sha256 (Suc n) h self other' used i
            = store_merge_items sha256 n h2 self other' used (Suc i)"
          using len nle kc sa sm None by simp
        ultimately show ?thesis using e02 store_ext_trans by metis
      qed
    qed
  qed
qed


lemma store_deserialize_spec:
  "store_inv H h \<Longrightarrow>
     store_ext H h (fst (store_deserialize H ad od n h ctx m)) \<and>
     (\<forall>s c. snd (store_deserialize H ad od n h ctx m) = Inr (s, c) \<longrightarrow>
        s < length (fst (store_deserialize H ad od n h ctx m)) \<and>
        node_msg (fst (store_deserialize H ad od n h ctx m) ! s) = m)"
  and store_deserialize_loop_spec:
  "store_inv H h \<Longrightarrow> self < length h \<Longrightarrow> node_msg (h ! self) = m \<Longrightarrow>
     store_ext H h (fst (store_deserialize_loop H ad od n h m self ctx)) \<and>
     (\<forall>s c. snd (store_deserialize_loop H ad od n h m self ctx) = Inr (s, c) \<longrightarrow> s = self)"
  and store_do_tag_or_attestation_spec:
  "store_inv H h \<Longrightarrow> self < length h \<Longrightarrow> node_msg (h ! self) = m \<Longrightarrow>
     store_ext H h (fst (store_do_tag_or_attestation H ad od n h m self tag ctx))"
proof (induction H ad od n h ctx m and H ad od n h m self ctx and H ad od n h m self tag ctx
    rule: store_deserialize_store_deserialize_loop_store_do_tag_or_attestation.induct)
  case (1 sha256 att_deserialize op_deserialize_from_tag h ctx initial_msg)
  then show ?case by (simp add: store_ext_refl)
next
  case (2 sha256 att_deserialize op_deserialize_from_tag n h ctx initial_msg)
  obtain h1 self where n: "store_new h initial_msg = (h1, self)"
    by (cases "store_new h initial_msg")
  note sn = store_new_spec[OF "2.prems" n]
  note e1 = store_extD[OF sn(1)]
  have s1: "self < length h1" using sn(2,3) by simp
  let ?r = "store_deserialize_loop sha256 att_deserialize op_deserialize_from_tag n h1
              initial_msg self ctx"
  have ih: "store_ext sha256 h1 (fst ?r) \<and> (\<forall>s c. snd ?r = Inr (s, c) \<longrightarrow> s = self)"
    using "2.IH"[OF refl n[symmetric] e1(1) s1 sn(4)] .
  have run: "store_deserialize sha256 att_deserialize op_deserialize_from_tag (Suc n) h ctx
               initial_msg = ?r"
    using n by simp
  note e2 = store_extD[OF ih[THEN conjunct1]]
  have "store_ext sha256 h (fst ?r)" using sn(1) ih store_ext_trans by blast
  moreover have "self < length (fst ?r)" using e2(4)[OF s1] .
  moreover have "node_msg (fst ?r ! self) = initial_msg" using e2(3)[OF s1] sn(4) by simp
  ultimately show ?case unfolding run using ih by auto
next
  case (3 sha256 att_deserialize op_deserialize_from_tag h initial_msg self ctx)
  then show ?case by (simp add: store_ext_refl)
next
  case (4 sha256 att_deserialize op_deserialize_from_tag n h initial_msg self ctx)
  show ?case
  proof (cases ctx)
    case Nil
    then show ?thesis using "4.prems" by (simp add: store_ext_refl)
  next
    case (Cons tag ctx1)
    show ?thesis
    proof (cases "tag = 0xff")
      case True
      show ?thesis
      proof (cases ctx1)
        case Nil
        then show ?thesis using Cons True "4.prems" by (simp add: store_ext_refl)
      next
        case c1: (Cons tag' ctx2)
        obtain h' y where d: "store_do_tag_or_attestation sha256 att_deserialize
            op_deserialize_from_tag n h initial_msg self tag' ctx2 = (h', y)"
          by (cases "store_do_tag_or_attestation sha256 att_deserialize
            op_deserialize_from_tag n h initial_msg self tag' ctx2")
        have e1: "store_ext sha256 h h'"
          using "4.IH"(1)[OF Cons True c1 "4.prems"] d by simp
        note x1 = store_extD[OF e1]
        show ?thesis
        proof (cases y)
          case (Inl e)
          then show ?thesis using Cons True c1 d e1 by simp
        next
          case (Inr ctx3)
          let ?r = "store_deserialize_loop sha256 att_deserialize op_deserialize_from_tag n h'
                      initial_msg self ctx3"
          have m': "node_msg (h' ! self) = initial_msg"
            using x1(3)[OF "4.prems"(2)] "4.prems"(3) by simp
          have ih: "store_ext sha256 h' (fst ?r) \<and> (\<forall>s c. snd ?r = Inr (s, c) \<longrightarrow> s = self)"
            using "4.IH"(2)[OF Cons True c1 d[symmetric] Inr x1(1) x1(4)[OF "4.prems"(2)] m'] .
          have run: "store_deserialize_loop sha256 att_deserialize op_deserialize_from_tag (Suc n)
                       h initial_msg self ctx = ?r"
            using Cons True c1 d Inr by simp
          have "store_ext sha256 h (fst ?r)" using e1 ih store_ext_trans by blast
          then show ?thesis unfolding run using ih by simp
        qed
      qed
    next
      case False
      obtain h' y where d: "store_do_tag_or_attestation sha256 att_deserialize
          op_deserialize_from_tag n h initial_msg self tag ctx1 = (h', y)"
        by (cases "store_do_tag_or_attestation sha256 att_deserialize
          op_deserialize_from_tag n h initial_msg self tag ctx1")
      have e1: "store_ext sha256 h h'"
        using "4.IH"(3)[OF Cons False "4.prems"] d by simp
      show ?thesis using Cons False d e1 by (cases y) simp_all
    qed
  qed
next
  case (5 sha256 att_deserialize op_deserialize_from_tag n h initial_msg self tag ctx)
  show ?case
  proof (cases "tag = 0x00")
    case True
    show ?thesis
    proof (cases "att_deserialize ctx")
      case (Inl e)
      then show ?thesis using True "5.prems" by (simp add: store_ext_refl)
    next
      case (Inr p)
      obtain a ctx' where p: "p = (a, ctx')" by (cases p)
      show ?thesis
        using True Inr p store_attest_spec(1)[OF "5.prems"(1,2)] by simp
    qed
  next
    case False
    show ?thesis
    proof (cases "op_deserialize_from_tag tag ctx")
      case (Inl e)
      then show ?thesis using False "5.prems" by (simp add: store_ext_refl)
    next
      case (Inr p)
      obtain op ctx' where p: "p = (op, ctx')" by (cases p)
      let ?d = "store_deserialize sha256 att_deserialize op_deserialize_from_tag n h ctx'
                  (op_call sha256 op initial_msg)"
      obtain h' y where d: "?d = (h', y)" by (cases ?d)
      have ih: "store_ext sha256 h h' \<and>
          (\<forall>s c. y = Inr (s, c) \<longrightarrow> s < length h' \<and> node_msg (h' ! s) = op_call sha256 op initial_msg)"
        using "5.IH"[OF False Inr p[symmetric] "5.prems"(1)] d by simp
      note x1 = store_extD[OF ih[THEN conjunct1]]
      show ?thesis
      proof (cases y)
        case e: (Inl e)
        then show ?thesis using False Inr p d ih by simp
      next
        case r: (Inr q)
        obtain stamp ctx'' where q: "q = (stamp, ctx'')" by (cases q)
        have st: "stamp < length h'"
          and ms: "node_msg (h' ! stamp) = op_call sha256 op initial_msg"
          using ih r q by simp_all
        have ms': "node_msg (h' ! stamp) = op_call sha256 op (node_msg (h' ! self))"
          using ms x1(3)[OF "5.prems"(2)] "5.prems"(3) by simp
        obtain h'' err where si: "store_setitem h' self op stamp = (h'', err)"
          by (cases "store_setitem h' self op stamp")
        note ss = store_setitem_spec[OF x1(1) x1(4)[OF "5.prems"(2)] st ms' si]
        have e2: "store_ext sha256 h h''" using ih ss(1) store_ext_trans by blast
        have "store_do_tag_or_attestation sha256 att_deserialize op_deserialize_from_tag n h
                initial_msg self tag ctx = (h'', Inr ctx'')"
          using False Inr p d r q si ss(3) by simp
        then show ?thesis using e2 by simp
      qed
    qed
  qed
qed

lemma store_inv_Nil: "store_inv H []"
  by (simp add: store_inv_def)

lemma store_inv_no_ops: "\<forall>n \<in> set h. node_ops n = [] \<Longrightarrow> store_inv H h"
  by (simp add: store_inv_def)

lemma example_store_inv: "store_inv H example_store"
  by (rule store_inv_no_ops) (simp add: example_store_def)

lemma exec_call_spec:
  assumes inv: "store_inv H h" and ok: "call_ok h c"
  shows "store_inv H (exec_call H ad od h c)"
proof (cases c)
  case (CallNew m)
  then show ?thesis
    using store_new_spec(1)[OF inv, of m] store_extD(1) by (cases "store_new h m") auto
next
  case (CallAttest self a)
  then show ?thesis using store_attest_spec(1)[OF inv, of self a] ok store_extD(1) by auto
next
  case (CallAdd self key)
  then show ?thesis
    using store_add_spec(1)[OF inv, of self key] ok store_extD(1)
    by (cases "store_add H h self key") auto
next
  case (CallMerge fuel self other)
  then show ?thesis using store_merge_spec[OF inv, of self other fuel] ok store_extD(1) by auto
next
  case (CallDeserialize fuel ctx m)
  then show ?thesis using store_deserialize_spec[OF inv, of ad od fuel ctx m] store_extD(1) by auto
next
  case (CallCat u l r)
  then show ?thesis using cat_then_unary_op_spec[OF inv, of l r u] ok store_extD(1) by auto
next
  case (CallMerkle stamps)
  then show ?thesis
    using make_merkle_tree_spec[OF inv, of stamps] ok store_extD(1) by (auto simp: list_all_iff)
qed

lemma run_calls_spec:
  "store_inv H h \<Longrightarrow> run_calls H ad od h cs = Some h' \<Longrightarrow> store_inv H h'"
proof (induction cs arbitrary: h)
  case Nil
  then show ?case by simp
next
  case (Cons c cs)
  then show ?case using exec_call_spec[of H h c ad od] by (simp split: if_splits)
qed

text \<open>
  C5. In every store that a sequence of the public operations leaves (new timestamps,
  \<^verbatim>\<open>attestations.add\<close>, \<^verbatim>\<open>ops.add\<close>, \<^verbatim>\<open>merge\<close>, \<^verbatim>\<open>deserialize\<close>,
  \<^verbatim>\<open>cat_then_unary_op\<close> and \<^verbatim>\<open>make_merkle_tree\<close>, with any fuel and also when a call
  raises), every entry \<open>(op, stamp)\<close> of the operation map of every timestamp holds a
  timestamp whose message is \<open>op\<close> applied to the message of the owner.
\<close>

theorem child_msg_invariant_reachable:
  assumes "run_calls sha256 att_deserialize op_deserialize_from_tag [] calls = Some h"
    and "self < length h" and "(op, stamp) \<in> set (node_ops (h ! self))"
  shows "stamp < length h \<and> node_msg (h ! stamp) = op_call sha256 op (node_msg (h ! self))"
  using store_invD[OF run_calls_spec[OF store_inv_Nil assms(1)] assms(2,3)] .

lemma example_calls_run:
  "run_calls rev example_att_deserialize example_op_deserialize_from_tag []
     [CallNew [1], CallNew [2], CallCat OpSHA256 (Ref 0) (Ref 1)]
   = Some [\<lparr>node_msg = [1], node_attestations = {||}, node_ops = [(OpAppend [2], 3)]\<rparr>,
           \<lparr>node_msg = [2], node_attestations = {||}, node_ops = [(OpPrepend [1], 3)]\<rparr>,
           \<lparr>node_msg = [1, 2], node_attestations = {||}, node_ops = []\<rparr>,
           \<lparr>node_msg = [1, 2], node_attestations = {||}, node_ops = [(OpSHA256, 4)]\<rparr>,
           \<lparr>node_msg = [2, 1], node_attestations = {||}, node_ops = []\<rparr>]"
  by (simp add: store_new_def valid_ref_def cat_then_unary_op_def as_timestamp_def store_add_def
      store_setitem_def OpSet_setitem_def)

text \<open>
  Two timestamps over \<open>[1]\<close> and \<open>[2]\<close> and their concatenation, the hash being the
  reversal: the entries of the first timestamp and of the shared child.
\<close>

theorem child_msg_invariant_reachable_witness:
  "\<exists>h. run_calls rev example_att_deserialize example_op_deserialize_from_tag []
          [CallNew [1], CallNew [2], CallCat OpSHA256 (Ref 0) (Ref 1)] = Some h
     \<and> node_msg (h ! 3) = op_call rev (OpAppend [2]) (node_msg (h ! 0))
     \<and> node_msg (h ! 4) = op_call rev OpSHA256 (node_msg (h ! 3))"
proof -
  note r = example_calls_run
  have "node_msg (the (run_calls rev example_att_deserialize example_op_deserialize_from_tag []
          [CallNew [1], CallNew [2], CallCat OpSHA256 (Ref 0) (Ref 1)]) ! 3)
        = op_call rev (OpAppend [2])
            (node_msg (the (run_calls rev example_att_deserialize example_op_deserialize_from_tag []
              [CallNew [1], CallNew [2], CallCat OpSHA256 (Ref 0) (Ref 1)]) ! 0))"
    using child_msg_invariant_reachable[OF r, of 0 "OpAppend [2]" 3] unfolding r by simp
  moreover have "node_msg (the (run_calls rev example_att_deserialize example_op_deserialize_from_tag []
          [CallNew [1], CallNew [2], CallCat OpSHA256 (Ref 0) (Ref 1)]) ! 4)
        = op_call rev OpSHA256
            (node_msg (the (run_calls rev example_att_deserialize example_op_deserialize_from_tag []
              [CallNew [1], CallNew [2], CallCat OpSHA256 (Ref 0) (Ref 1)]) ! 3))"
    using child_msg_invariant_reachable[OF r, of 3 OpSHA256 4] unfolding r by simp
  ultimately show ?thesis unfolding r by simp
qed


section \<open>Concatenation\<close>

lemma example_stale_store_value:
  "example_stale_store =
     [\<lparr>node_msg = [1], node_attestations = {||}, node_ops = [(OpAppend [2], 2)]\<rparr>,
      \<lparr>node_msg = [2], node_attestations = {||}, node_ops = []\<rparr>,
      \<lparr>node_msg = [9], node_attestations = {||}, node_ops = []\<rparr>]"
  by (simp add: example_stale_store_def store_new_def store_setitem_def OpSet_setitem_def)

text \<open>
  C8, as stated, fails: \<open>L\<close> over \<open>[1]\<close> that was assigned
  \<^verbatim>\<open>ops[OpAppend([2])] = Timestamp([9])\<close> (the assignment raises nothing, the key being
  new) and \<open>R\<close> over \<open>[2]\<close>. \<^verbatim>\<open>cat_sha256(L, R)\<close> finds that entry of \<open>L\<close>, makes the
  child of \<open>R\<close> over \<open>[1, 2]\<close>, and the assignment of this child to the entry of \<open>L\<close>
  raises: the messages \<open>[9]\<close> and \<open>[1, 2]\<close> differ. Nothing is returned.
\<close>

theorem cat_sha256_raises_on_stale_entry:
  "snd (store_setitem (fst (store_new (fst (store_new (fst (store_new [] [1])) [2])) [9]))
            0 (OpAppend [2]) 2) = (None :: error option)
   \<and> snd (cat_sha256 rev example_stale_store (Ref 0) (Ref 1)) = Inl ExistingResultMismatch"
  by (simp add: example_stale_store_def store_new_def store_setitem_def OpSet_setitem_def
      cat_sha256_def cat_then_unary_op_def as_timestamp_def store_add_def)

text \<open>
  C8, amended. In a store where the message of every child is the operation applied
  to the message of its parent, for all timestamps \<open>L\<close> and \<open>R\<close>: \<^verbatim>\<open>cat_sha256(L, R)\<close>
  returns, and afterwards \<^verbatim>\<open>L.ops[OpAppend(R.msg)]\<close> and \<^verbatim>\<open>R.ops[OpPrepend(L.msg)]\<close>
  are the same object, whose message is \<open>L.msg\<close> followed by \<open>R.msg\<close>; the timestamp
  returned is the child of that object under SHA-256, and its message is the hash of
  \<open>L.msg\<close> followed by \<open>R.msg\<close>.
\<close>

theorem cat_sha256_sharing:
  assumes inv: "store_inv sha256 h" and l: "l < length h" and r: "r < length h"
  shows "\<exists>h' ret x. cat_sha256 sha256 h (Ref l) (Ref r) = (h', Inr ret)
           \<and> child h' l (OpAppend (node_msg (h ! r))) = Some x
           \<and> child h' r (OpPrepend (node_msg (h ! l))) = Some x
           \<and> node_msg (h' ! x) = node_msg (h ! l) @ node_msg (h ! r)
           \<and> child h' x OpSHA256 = Some ret
           \<and> node_msg (h' ! ret) = sha256 (node_msg (h ! l) @ node_msg (h ! r))"
proof -
  have t1: "as_timestamp h (Ref l) = (h, l)" and t2: "as_timestamp h (Ref r) = (h, r)"
    by (simp_all add: as_timestamp_def)
  obtain h3 las where s3: "store_add sha256 h l (OpAppend (node_msg (h ! r))) = (h3, las)"
    by (cases "store_add sha256 h l (OpAppend (node_msg (h ! r)))")
  obtain h4 rps where s4: "store_add sha256 h3 r (OpPrepend (node_msg (h3 ! l))) = (h4, rps)"
    by (cases "store_add sha256 h3 r (OpPrepend (node_msg (h3 ! l)))")
  obtain h5 err where s5: "store_setitem h4 l (OpAppend (node_msg (h4 ! r))) rps = (h5, err)"
    by (cases "store_setitem h4 l (OpAppend (node_msg (h4 ! r))) rps")
  obtain h6 ret where s6: "store_add sha256 h5 rps OpSHA256 = (h6, ret)"
    by (cases "store_add sha256 h5 rps OpSHA256")
  note c = cat_core[OF inv l r s3 s4 s5 s6]
  note e25 = store_extD[OF c(2)]
  note e56 = store_extD[OF c(3)]
  have run: "cat_sha256 sha256 h (Ref l) (Ref r) = (h6, Inr ret)"
    unfolding cat_sha256_def using t1 t2 s3 s4 s5[unfolded c(1)] s6
    by (rule cat_then_unary_op_unfold)
  have "child h6 l (OpAppend (node_msg (h ! r))) = child h5 l (OpAppend (node_msg (h ! r)))"
    by (rule c(11)) (use e25(4)[OF l] in simp_all)
  then have cl: "child h6 l (OpAppend (node_msg (h ! r))) = Some rps" using c(6) by simp
  have "child h6 r (OpPrepend (node_msg (h ! l))) = child h5 r (OpPrepend (node_msg (h ! l)))"
    by (rule c(11)) (use e25(4)[OF r] in simp_all)
  then have cr: "child h6 r (OpPrepend (node_msg (h ! l))) = Some rps" using c(7) by simp
  have mx: "node_msg (h6 ! rps) = node_msg (h ! l) @ node_msg (h ! r)"
    using e56(3)[OF c(4)] c(5) by simp
  show ?thesis using run cl cr mx c(10) c(9) by simp
qed

text \<open>The concatenation of the first two example timestamps, the hash being the reversal.\<close>

theorem cat_sha256_sharing_witness:
  "\<exists>h' ret x. cat_sha256 rev example_store (Ref 0) (Ref 1) = (h', Inr ret)
      \<and> child h' 0 (OpAppend [2]) = Some x \<and> child h' 1 (OpPrepend [1]) = Some x
      \<and> node_msg (h' ! x) = [1, 2] \<and> child h' x OpSHA256 = Some ret
      \<and> node_msg (h' ! ret) = [2, 1]"
  using cat_sha256_sharing[OF example_store_inv, of 0 1 rev] by (simp add: example_store_def)


section \<open>The Merkle tree\<close>

text \<open>
  C9, as stated, fails: three timestamps over \<open>[1]\<close>, \<open>[2]\<close>, \<open>[3]\<close>, the first of
  which was assigned \<^verbatim>\<open>ops[OpAppend([2])] = Timestamp([9])\<close>. The first pairing raises
  in \<^verbatim>\<open>cat_sha256\<close>, and \<^verbatim>\<open>make_merkle_tree\<close> returns no tip.
\<close>

theorem make_merkle_tree_raises_on_stale_entry:
  "snd (make_merkle_tree rev example_stale_leaves [Ref 0, Ref 1, Ref 2])
     = Inl ExistingResultMismatch"
  by (simp add: example_stale_leaves_def store_new_def store_setitem_def OpSet_setitem_def
      make_merkle_tree.simps
      cat_sha256_def cat_then_unary_op_def as_timestamp_def store_add_def)

text \<open>
  C9, amended. In a store where the message of every child is the operation applied
  to the message of its parent, for every list of three timestamps \<open>[L1, L2, L3]\<close>:
  \<^verbatim>\<open>make_merkle_tree\<close> does what \<^verbatim>\<open>cat_sha256(L1, L2)\<close> followed by \<^verbatim>\<open>cat_sha256\<close> of
  its result and \<open>L3\<close> does, and nothing else (\<open>L3\<close> is carried up as it is), and
  returns the result of the second; the message of this tip is the hash of: the hash
  of \<open>L1.msg\<close> followed by \<open>L2.msg\<close>, followed by \<open>L3.msg\<close>.
\<close>

theorem make_merkle_tree_three:
  assumes inv: "store_inv sha256 h"
    and l1: "l1 < length h" and l2: "l2 < length h" and l3: "l3 < length h"
  shows "\<exists>h1 p12 h2 tip.
           cat_sha256 sha256 h (Ref l1) (Ref l2) = (h1, Inr p12)
         \<and> cat_sha256 sha256 h1 (Ref p12) (Ref l3) = (h2, Inr tip)
         \<and> make_merkle_tree sha256 h [Ref l1, Ref l2, Ref l3] = (h2, Inr (Some (Ref tip)))
         \<and> node_msg (h2 ! tip)
             = sha256 (sha256 (node_msg (h ! l1) @ node_msg (h ! l2)) @ node_msg (h ! l3))"
proof -
  have v: "valid_ref h (Ref l1)" "valid_ref h (Ref l2)" "valid_ref h (Ref l3)"
    using l1 l2 l3 by (simp_all add: valid_ref_def)
  from cat_sha256_spec[OF inv v(1) v(2)] obtain h1 p12 where
    c1: "cat_sha256 sha256 h (Ref l1) (Ref l2) = (h1, Inr p12)" and e1: "store_ext sha256 h h1"
    and p12: "p12 < length h1"
    and m12: "node_msg (h1 ! p12) = sha256 (node_msg (h ! l1) @ node_msg (h ! l2))"
    by (auto simp: msg_of_def)
  note x1 = store_extD[OF e1]
  have v1: "valid_ref h1 (Ref p12)" "valid_ref h1 (Ref l3)"
    using p12 x1(4)[OF l3] by (simp_all add: valid_ref_def)
  from cat_sha256_spec[OF x1(1) v1] obtain h2 tip where
    c2: "cat_sha256 sha256 h1 (Ref p12) (Ref l3) = (h2, Inr tip)"
    and mt: "node_msg (h2 ! tip) = sha256 (node_msg (h1 ! p12) @ node_msg (h1 ! l3))"
    by (auto simp: msg_of_def)
  have r1: "merkle_pairs sha256 h (Some (Ref l1)) [Ref l2, Ref l3] []
              = (h1, Inr ([Ref p12], Some (Ref l3)))"
    using c1 by simp
  have r2: "merkle_pairs sha256 h1 (Some (Ref p12)) [Ref l3] [] = (h2, Inr ([Ref tip], None))"
    using c2 by simp
  have "make_merkle_tree sha256 h [Ref l1, Ref l2, Ref l3]
          = make_merkle_tree sha256 h1 [Ref p12, Ref l3]"
    by (subst make_merkle_tree.simps) (simp add: c1)
  also have "\<dots> = make_merkle_tree sha256 h2 [Ref tip]"
    by (subst make_merkle_tree.simps) (simp add: c2)
  also have "\<dots> = (h2, Inr (Some (Ref tip)))"
    by (subst make_merkle_tree.simps) simp
  finally have run: "make_merkle_tree sha256 h [Ref l1, Ref l2, Ref l3] = (h2, Inr (Some (Ref tip)))" .
  have "node_msg (h2 ! tip)
      = sha256 (sha256 (node_msg (h ! l1) @ node_msg (h ! l2)) @ node_msg (h ! l3))"
    using mt m12 x1(3)[OF l3] by simp
  then show ?thesis using c1 c2 run by blast
qed

text \<open>The tree of the three example timestamps, the hash being the reversal.\<close>

theorem make_merkle_tree_three_witness:
  "\<exists>h1 p12 h2 tip.
       cat_sha256 rev example_store (Ref 0) (Ref 1) = (h1, Inr p12)
     \<and> cat_sha256 rev h1 (Ref p12) (Ref 2) = (h2, Inr tip)
     \<and> make_merkle_tree rev example_store [Ref 0, Ref 1, Ref 2] = (h2, Inr (Some (Ref tip)))
     \<and> node_msg (h2 ! tip) = [3, 1, 2]"
  using make_merkle_tree_three[OF example_store_inv, of 0 1 2 rev] by (simp add: example_store_def)

end
